theory Spec2Isabelle
  imports Main "HOL-Library.Word" "HOL-Library.Signed_Division" "HOL-Library.Char_ord"
    "HOL-Library.List_Lexorder" "HOL-Library.Sublist"
begin

section \<open>Data model\<close>

text \<open>
  A \<open>std::string\<close> is a sequence of bytes: \<^typ>\<open>string\<close>. Sizes and scan indices
  (\<open>size_t\<close>) are natural numbers. Keys of a \<open>std::map<std::string, std::string>\<close>
  are compared byte by byte as unsigned values, shorter strings first among those that
  share a prefix: the order of \<^typ>\<open>string\<close> given by the lexicographic order on lists
  over the order of \<^typ>\<open>char\<close>.

  Exceptions are values: \<open>out_of_range\<close> is the exception \<open>std::out_of_range\<close> thrown
  by \<open>std::string::at\<close>. \<open>undefined_behaviour\<close> is the outcome of a read outside
  the object read from, to which the language gives no meaning.
\<close>

datatype error = out_of_range | undefined_behaviour

text \<open>
  The replacement table of \<open>replace_map\<close> is a \<open>std::map\<close>: its entries are kept in
  ascending key order with one entry per key, whatever the order they were stored in.
  It is modelled by the list of its entries in iteration order (\<open>begin()\<close> to
  \<open>end()\<close>). A caller registers a rule with \<open>m[target] = replacement\<close>.
\<close>

type_synonym replacements = "(string \<times> string) list"

fun map_assign :: "string \<Rightarrow> string \<Rightarrow> replacements \<Rightarrow> replacements" where
  "map_assign k v [] = [(k, v)]"
| "map_assign k v ((k', v') # m) =
     (if k < k' then (k, v) # (k', v') # m
      else if k = k' then (k, v) # m
      else (k', v') # map_assign k v m)"

text \<open>Registering a sequence of rules, first to last, into an empty table.\<close>

definition register :: "(string \<times> string) list \<Rightarrow> replacements" where
  "register rules = foldl (\<lambda>m (k, v). map_assign k v m) [] rules"

section \<open>\<open>wire::string::at\<close>\<close>

text \<open>
  \<open>pos\<close> is an \<open>int\<close>: a 32-bit word read as two's complement by \<^const>\<open>sint\<close>.
  \<open>int32\<close> is the conversion of a value to \<open>int\<close> (wrapping), as in
  \<open>(signed)(this->size())\<close>; \<open>size_t\<close> is the conversion of an \<open>int\<close> to the
  64-bit unsigned index type of \<open>std::string::at\<close>, which throws when the index is not
  below the size. \<open>%\<close> truncates towards zero: \<open>smod\<close>. The additions are
  those of \<open>int\<close>; they stay in range for every size below \<open>2^31\<close>, and the model
  wraps them beyond, where the standard leaves the overflow undefined. On the empty
  string \<open>at\<close> returns a reference to a NUL character kept in a static map; the model
  returns the character.
\<close>

definition std_string_at :: "string \<Rightarrow> nat \<Rightarrow> error + char" where
  "std_string_at s n = (if n < length s then Inr (s ! n) else Inl out_of_range)"

definition int32 :: "int \<Rightarrow> int" where
  "int32 x = sint (word_of_int x :: 32 word)"

definition size_t :: "int \<Rightarrow> nat" where
  "size_t x = unat (word_of_int x :: 64 word)"

definition at :: "string \<Rightarrow> 32 word \<Rightarrow> error + char" where
  "at self pos =
     (let size = int32 (int (length self)) in
      if size \<noteq> 0 then
        std_string_at self (size_t
          (if sint pos \<ge> 0 then sint pos smod size
           else int32 (int32 (size - 1) + (int32 (sint pos + 1) smod size))))
      else Inr (CHR 0x00))"

lemma neg_mod_shift:
  fixes a n :: int
  assumes "0 \<le> a" "0 < n"
  shows "(- a - 1) mod n = n - 1 - a mod n"
proof -
  have "a = n * (a div n) + a mod n" by simp
  then have "- a - 1 = (n - 1 - a mod n) + n * (- (a div n) - 1)"
    by (simp add: algebra_simps)
  then have "(- a - 1) mod n = (n - 1 - a mod n) mod n"
    by (metis mod_mult_self2)
  moreover from assms have "0 \<le> a mod n" "a mod n < n"
    by simp_all
  then have "0 \<le> n - 1 - a mod n" "n - 1 - a mod n < n"
    by arith+
  ultimately show ?thesis by simp
qed

lemma int32_id: "- (2 ^ 31) \<le> x \<Longrightarrow> x < 2 ^ 31 \<Longrightarrow> int32 x = x"
  unfolding int32_def
  by (simp add: sint_sbintrunc' signed_take_bit_int_eq_self)

lemma size_t_id: "0 \<le> x \<Longrightarrow> x < 2 ^ 64 \<Longrightarrow> size_t x = nat x"
  unfolding size_t_def
  by (simp add: unat_eq_nat_uint uint_word_of_int)

lemma sint_range32: "- (2 ^ 31) \<le> sint (pos :: 32 word) \<and> sint pos < 2 ^ 31"
  using sint_ge [of pos] sint_lt [of pos] by simp

lemma circular_index:
  fixes n :: int
  assumes n: "0 < n" "n < 2 ^ 31"
  shows "int32 n = n"
    and "size_t (if sint pos \<ge> 0 then sint pos smod n
                 else int32 (int32 (n - 1) + (int32 (sint (pos :: 32 word) + 1) smod n)))
           = nat (sint pos mod n)"
    and "nat (sint pos mod n) < nat n"
proof -
  from n show size: "int32 n = n" by (simp add: int32_id)
  note r = sint_range32 [of pos]
  have idx: "(if sint pos \<ge> 0 then sint pos smod n
           else int32 (int32 (n - 1) + (int32 (sint pos + 1) smod n))) = sint pos mod n"
  proof (cases "sint pos \<ge> 0")
    case True
    with n show ?thesis by (simp add: smod_mod_positive)
  next
    case False
    define a where "a = - (sint pos + 1)"
    from False have a: "0 \<le> a" by (simp add: a_def)
    from False r have p1: "int32 (sint pos + 1) = - a" by (simp add: int32_id a_def)
    from n have n1: "int32 (n - 1) = n - 1" by (simp add: int32_id)
    have sm: "a smod n = a mod n"
      using a n by (simp add: smod_mod_positive)
    have bound: "0 \<le> a mod n" "a mod n < n"
      using n by simp_all
    then have "int32 (n - 1 - a mod n) = n - 1 - a mod n"
      using n by (intro int32_id) arith+
    moreover have "sint pos mod n = n - 1 - a mod n"
      using neg_mod_shift [OF a n(1)] by (simp add: a_def)
    ultimately show ?thesis using False by (simp add: p1 n1 sm)
  qed
  have m: "0 \<le> sint pos mod n" "sint pos mod n < n" using n by simp_all
  with n have "sint pos mod n < 2 ^ 64" by simp
  with m have "size_t (sint pos mod n) = nat (sint pos mod n)"
    by (simp add: size_t_id)
  with idx show "size_t (if sint pos \<ge> 0 then sint pos smod n
                 else int32 (int32 (n - 1) + (int32 (sint pos + 1) smod n)))
           = nat (sint pos mod n)"
    by (simp only:)
  from m show "nat (sint pos mod n) < nat n" by simp
qed

lemma at_in_range:
  assumes "self \<noteq> []" "length self < 2 ^ 31"
  shows "at self pos = Inr (self ! nat (sint pos mod int (length self)))"
proof -
  from assms have n: "0 < int (length self)" "int (length self) < 2 ^ 31" by simp_all
  show ?thesis
    unfolding at_def Let_def circular_index(1) [OF n] circular_index(2) [OF n]
    using circular_index(3) [OF n, of pos] n(1) by (simp add: std_string_at_def)
qed

text \<open>
  Claim C9, as amended. For every non-empty string of fewer than \<open>2^31\<close> characters
  and every position \<open>pos\<close>, positive or negative, \<open>at\<close> returns the character at
  index \<open>pos\<close> modulo the length (the mathematical modulus: \<open>at(-1)\<close> is the last
  character) and never throws; on the empty string it returns NUL for every \<open>pos\<close>.
\<close>

theorem at_circular:
  "(self \<noteq> [] \<and> length self < 2 ^ 31 \<longrightarrow>
      at self pos = Inr (self ! nat (sint pos mod int (length self)))) \<and>
   at [] pos = Inr (CHR 0x00)"
  using at_in_range [of self pos] by (simp add: at_def int32_def)

text \<open>An instance: \<open>hello\<close> at \<open>-1\<close>, \<open>5\<close> and \<open>-6\<close>, and the empty string.\<close>

theorem at_circular_witness:
  "''hello'' \<noteq> [] \<and> length ''hello'' < (2 :: nat) ^ 31 \<and>
   at ''hello'' (- 1) = Inr (CHR ''o'') \<and> at ''hello'' 5 = Inr (CHR ''h'') \<and>
   at ''hello'' (- 6) = Inr (CHR ''o'') \<and> at [] 7 = Inr (CHR 0x00)"
  using at_circular [of "''hello''" "- 1"] at_circular [of "''hello''" 5]
    at_circular [of "''hello''" "- 6"] at_circular [of "''hello''" 7]
  by simp

text \<open>
  Claim C9 as stated fails: the size is read through \<open>(signed)\<close>, so a string of
  \<open>2^32\<close> characters has \<open>size = 0\<close> and is taken for the empty string: \<open>at(0)\<close>
  returns NUL, not its first character.
\<close>

theorem at_huge_string_counterexample:
  "replicate 4294967296 (CHR ''a'') \<noteq> [] \<and>
   replicate 4294967296 (CHR ''a'') ! nat (sint (0 :: 32 word) mod 4294967296) = CHR ''a'' \<and>
   at (replicate 4294967296 (CHR ''a'')) 0 = Inr (CHR 0x00)"
  by (simp add: at_def int32_def)

section \<open>\<open>wire::string::replace_map\<close>\<close>

text \<open>
  \<open>wire::string\<close> declares \<open>at(const int &)\<close>, which hides \<open>std::string::at\<close> inside
  the class: in \<open>replace_map\<close> both \<open>this->at(i)\<close> are calls of the circular \<open>at\<close>
  of the previous section, with the \<open>size_t\<close> index \<open>i\<close> converted to \<open>int\<close>
  (wrapping): \<open>int_of_size_t\<close>.
\<close>

definition int_of_size_t :: "nat \<Rightarrow> 32 word" where
  "int_of_size_t i = word_of_nat i"

text \<open>
  \<open>memcmp\<close> is given \<open>&this->at(i)\<close>, the address of the character \<open>at\<close> returns a
  reference to: a byte of the string's buffer, or the NUL character of the static map
  when the size converts to zero. \<open>at_place\<close> is \<open>at\<close> with that place for result.
  \<open>bytes_at\<close> is what \<open>memcmp\<close> reads there: \<open>n\<close> bytes of the buffer, whose
  last byte is the terminating NUL after the characters of the string, or the one byte
  of the static character. A read that leaves the object has no defined behaviour.
\<close>

datatype place = in_string nat | static_nul

definition at_place :: "string \<Rightarrow> 32 word \<Rightarrow> error + place" where
  "at_place self pos =
     (let size = int32 (int (length self)) in
      if size \<noteq> 0 then
        (let n = size_t
           (if sint pos \<ge> 0 then sint pos smod size
            else int32 (int32 (size - 1) + (int32 (sint pos + 1) smod size)))
         in if n < length self then Inr (in_string n) else Inl out_of_range)
      else Inr static_nul)"

definition bytes_at :: "string \<Rightarrow> place \<Rightarrow> nat \<Rightarrow> error + string" where
  "bytes_at self p n =
     (case p of
        in_string j \<Rightarrow>
          if j + n \<le> length self + 1 then Inr (take n (drop j (self @ [CHR 0x00])))
          else Inl undefined_behaviour
      | static_nul \<Rightarrow>
          if n \<le> 1 then Inr (take n [CHR 0x00]) else Inl undefined_behaviour)"

text \<open>
  The inner loop of \<open>replace_map\<close> at scan index \<open>i\<close>, over the entries from
  \<open>rbegin()\<close> to \<open>rend()\<close>; it stops at the first entry found. The result is
  \<open>None\<close> when \<open>found\<close> stays false, and the new index with the replacement to append
  otherwise. The guard compares sizes as \<open>size_t\<close>, with \<open>i\<close> below the size of
  the text. \<open>memcmp\<close> compares
  \<open>match_length = target.size()\<close> bytes read at \<open>&this->at(i)\<close> with those of the
  target; \<open>target.at(0)\<close> is \<open>std::string::at\<close> and throws on an empty target, as
  \<open>this->at(i)\<close> may: the same exception, whichever is evaluated first.
\<close>

fun try_rules :: "string \<Rightarrow> nat \<Rightarrow> replacements \<Rightarrow> error + (nat \<times> string) option" where
  "try_rules text i [] = Inr None"
| "try_rules text i ((target, replacement) # rest) =
     (if length text - i \<ge> length target then
        (if target = [] then Inl out_of_range
         else case at_place text (int_of_size_t i) of
                Inl e \<Rightarrow> Inl e
              | Inr p \<Rightarrow>
                  (case bytes_at text p (length target) of
                     Inl e \<Rightarrow> Inl e
                   | Inr bytes \<Rightarrow>
                       if bytes = take (length target) target
                       then Inr (Some (i + length target, replacement))
                       else try_rules text i rest))
      else try_rules text i rest)"

lemma try_rules_advance:
  "try_rules text i rs = Inr (Some (i', r)) \<Longrightarrow> i < i'"
  by (induction rs) (auto split: if_splits sum.splits)

text \<open>
  The outer loop. With no rule found the character \<open>this->at(i++)\<close> is appended:
  again the circular \<open>at\<close>, which may throw.
\<close>

function replace_loop :: "replacements \<Rightarrow> string \<Rightarrow> nat \<Rightarrow> string \<Rightarrow> error + string" where
  "replace_loop replacements text i out =
     (if i < length text then
        (case try_rules text i (rev replacements) of
           Inl e \<Rightarrow> Inl e
         | Inr (Some (i', replacement)) \<Rightarrow> replace_loop replacements text i' (out @ replacement)
         | Inr None \<Rightarrow>
             (case at text (int_of_size_t i) of
                Inl e \<Rightarrow> Inl e
              | Inr c \<Rightarrow> replace_loop replacements text (Suc i) (out @ [c])))
      else Inr out)"
  by pat_completeness auto
termination
  by (relation "measure (\<lambda>(replacements, text, i, out). length text - i)")
     (auto dest: try_rules_advance)

declare replace_loop.simps [simp del]

definition replace_map :: "string \<Rightarrow> replacements \<Rightarrow> error + string" where
  "replace_map text replacements = replace_loop replacements text 0 []"

text \<open>
  The algorithm of the specification (section 4.2), in its own words: scan the text from
  left to right; at each position try every rule in reverse registration order, a rule
  applying when the remaining input starts with its pattern; apply the first such rule,
  skip the matched span and append the replacement; with no rule matching, copy one
  unit; empty patterns are skipped. Its argument is the list of rules in registration
  order. It is what \<open>replace_map\<close> is compared with.
\<close>

function substitute_spec :: "(string \<times> string) list \<Rightarrow> string \<Rightarrow> string" where
  "substitute_spec rules rest =
     (case rest of
        [] \<Rightarrow> []
      | c # rest' \<Rightarrow>
          (case find (\<lambda>(pattern, replacement). pattern \<noteq> [] \<and> prefix pattern rest) (rev rules) of
             Some (pattern, replacement) \<Rightarrow>
               replacement @ substitute_spec rules (drop (length pattern) rest)
           | None \<Rightarrow> c # substitute_spec rules rest'))"
  by pat_completeness auto
termination
  by (relation "measure (\<lambda>(rules, rest). length rest)") (auto simp: find_Some_iff)

declare substitute_spec.simps [simp del]

subsection \<open>Texts whose size fits \<open>int\<close>\<close>

text \<open>
  Below \<open>2^31\<close> bytes the conversions keep the size and the index: \<open>this->at(i)\<close>
  is the byte at index \<open>i\<close>, and \<open>memcmp\<close> reads the text from there.
\<close>

lemma sint_int_of_size_t: "i < 2 ^ 31 \<Longrightarrow> sint (int_of_size_t i) = int i"
  by (simp add: int_of_size_t_def signed_of_nat signed_take_bit_int_eq_self)

lemma at_place_at:
  "at self pos = (case at_place self pos of
                    Inl e \<Rightarrow> Inl e
                  | Inr (in_string n) \<Rightarrow> Inr (self ! n)
                  | Inr static_nul \<Rightarrow> Inr (CHR 0x00))"
  by (simp add: at_def at_place_def std_string_at_def Let_def)

lemma at_place_in_range:
  assumes "self \<noteq> []" "length self < 2 ^ 31"
  shows "at_place self pos = Inr (in_string (nat (sint pos mod int (length self))))"
proof -
  from assms have n: "0 < int (length self)" "int (length self) < 2 ^ 31" by simp_all
  show ?thesis
    unfolding at_place_def Let_def circular_index(1) [OF n] circular_index(2) [OF n]
    using circular_index(3) [OF n, of pos] n(1) by simp
qed

lemma at_place_scan:
  assumes "i < length text" "length text < 2 ^ 31"
  shows "at_place text (int_of_size_t i) = Inr (in_string i)"
proof -
  from assms have "text \<noteq> []" "i < 2 ^ 31" by auto
  with assms show ?thesis
    by (simp add: at_place_in_range sint_int_of_size_t)
qed

lemma at_scan:
  "i < length text \<Longrightarrow> length text < 2 ^ 31 \<Longrightarrow> at text (int_of_size_t i) = Inr (text ! i)"
  by (simp add: at_place_at at_place_scan)

lemma bytes_at_in_string:
  "i + n \<le> length text \<Longrightarrow> bytes_at text (in_string i) n = Inr (take n (drop i text))"
  by (simp add: bytes_at_def)

lemma try_rules_step:
  assumes "i < length text" "length text < 2 ^ 31"
  shows "try_rules text i ((target, replacement) # rest) =
     (if target = [] then Inl out_of_range
      else if prefix target (drop i text) then Inr (Some (i + length target, replacement))
      else try_rules text i rest)"
proof (cases "length text - i \<ge> length target")
  case True
  with assms have le: "i + length target \<le> length text" by simp
  then have "take (length target) (drop i text) = target \<longleftrightarrow> prefix target (drop i text)"
    by (metis append_eq_conv_conj prefix_def append_take_drop_id)
  with True assms le show ?thesis
    by (simp add: at_place_scan bytes_at_in_string)
next
  case False
  then have "\<not> prefix target (drop i text)"
    by (auto dest: prefix_length_le)
  moreover from False have "target \<noteq> []" by auto
  ultimately show ?thesis using False by simp
qed

subsection \<open>The table is ordered by key\<close>

definition sorted_keys :: "replacements \<Rightarrow> bool" where
  "sorted_keys m = sorted_wrt (<) (map fst m)"

lemma set_map_assign: "set (map fst (map_assign k v m)) = insert k (set (map fst m))"
proof (induction m)
  case Nil
  then show ?case by simp
next
  case (Cons a m)
  obtain k' v' where a: "a = (k', v')" by (cases a)
  from Cons.IH have IH: "fst ` set (map_assign k v m) = insert k (fst ` set m)" by simp
  show ?case
    by (cases "k < k'"; cases "k = k'") (simp_all add: a IH insert_commute)
qed

lemma sorted_keys_map_assign: "sorted_keys m \<Longrightarrow> sorted_keys (map_assign k v m)"
proof (induction m)
  case Nil
  then show ?case by (simp add: sorted_keys_def)
next
  case (Cons a m)
  obtain k' v' where a: "a = (k', v')" by (cases a)
  from Cons.prems have m: "sorted_keys m" and lt: "\<forall>x \<in> set (map fst m). k' < x"
    by (auto simp: sorted_keys_def a)
  from Cons.IH [OF m] have IH: "sorted_keys (map_assign k v m)" .
  show ?case
    using Cons.prems IH lt set_map_assign [of k v m]
    by (auto simp: sorted_keys_def a)
qed

lemma sorted_keys_foldl:
  "sorted_keys m \<Longrightarrow> sorted_keys (foldl (\<lambda>m (k, v). map_assign k v m) m rules)"
  by (induction rules arbitrary: m) (auto simp: sorted_keys_map_assign)

lemma sorted_keys_register: "sorted_keys (register rules)"
  unfolding register_def by (rule sorted_keys_foldl) (simp add: sorted_keys_def)

lemma keys_foldl:
  "set (map fst (foldl (\<lambda>m (k, v). map_assign k v m) m rules))
     = set (map fst m) \<union> set (map fst rules)"
proof (induction rules arbitrary: m)
  case Nil
  then show ?case by simp
next
  case (Cons a rules)
  obtain k v where a: "a = (k, v)" by (cases a)
  show ?case
    using Cons.IH [of "map_assign k v m"] set_map_assign [of k v m] by (simp add: a)
qed

lemma keys_register: "set (map fst (register rules)) = set (map fst rules)"
  using keys_foldl [of "[]" rules] by (simp add: register_def)

lemma strict_prefix_less: "strict_prefix p q \<Longrightarrow> p < (q :: string)"
proof (induction p arbitrary: q)
  case Nil
  then show ?case by (cases q) auto
next
  case (Cons a p)
  then show ?case by (cases q) auto
qed

subsection \<open>One scan position\<close>

lemma try_rules_bound:
  "try_rules text i rs = Inr (Some (i', r)) \<Longrightarrow> i \<le> length text \<Longrightarrow> i' \<le> length text"
proof (induction rs)
  case Nil
  then show ?case by simp
next
  case (Cons a rs)
  obtain k v where a: "a = (k, v)" by (cases a)
  show ?case
  proof (cases "try_rules text i rs = Inr (Some (i', r))")
    case True
    with Cons show ?thesis by simp
  next
    case False
    with Cons.prems(1) have "length text - i \<ge> length k" and "i' = i + length k"
      by (simp_all add: a split: if_splits sum.splits)
    with Cons.prems(2) show ?thesis by simp
  qed
qed

lemma try_rules_find:
  assumes "\<forall>(k, v) \<in> set rs. k \<noteq> []" "i < length text" "length text < 2 ^ 31"
  shows "try_rules text i rs =
     Inr (map_option (\<lambda>(k, v). (i + length k, v)) (find (\<lambda>(k, v). prefix k (drop i text)) rs))"
  using assms(1)
proof (induction rs)
  case Nil
  then show ?case by simp
next
  case (Cons a rs)
  obtain k v where a: "a = (k, v)" by (cases a)
  from Cons.prems a have k: "k \<noteq> []" by simp
  from Cons have IH: "try_rules text i rs =
     Inr (map_option (\<lambda>(k, v). (i + length k, v)) (find (\<lambda>(k, v). prefix k (drop i text)) rs))"
    by simp
  show ?case
    unfolding a try_rules_step [OF assms(2,3)] using k IH by simp
qed

lemma try_rules_first_match:
  assumes "i < length text" "length text < 2 ^ 31"
    and "find (\<lambda>(k, v). prefix k (drop i text)) rs = Some (k, v)" and "k \<noteq> []"
  shows "try_rules text i rs = Inr (Some (i + length k, v))"
  using assms(3)
proof (induction rs)
  case Nil
  then show ?case by simp
next
  case (Cons a rs)
  obtain k' v' where a: "a = (k', v')" by (cases a)
  show ?case
  proof (cases "prefix k' (drop i text)")
    case True
    with Cons.prems a have "k' = k" "v' = v" by simp_all
    with True assms(4) show ?thesis
      unfolding a try_rules_step [OF assms(1,2)] by simp
  next
    case False
    then have "k' \<noteq> []" by auto
    moreover from False Cons a have "try_rules text i rs = Inr (Some (i + length k, v))"
      by simp
    ultimately show ?thesis
      unfolding a try_rules_step [OF assms(1,2)] using False by simp
  qed
qed

text \<open>
  Two patterns that start at the same position are prefixes of the same text: the one
  that is not greater in the order of the keys is a prefix of the other.
\<close>

lemma prefix_of_greater:
  assumes "prefix a t" "prefix b t" "a \<le> (b :: string)"
  shows "prefix a b"
proof (rule ccontr)
  assume n: "\<not> prefix a b"
  with prefix_same_cases [OF assms(1,2)] have "prefix b a" by simp
  with n have "strict_prefix b a" by (auto simp: strict_prefix_def)
  then have "b < a" by (rule strict_prefix_less)
  with assms(3) show False by simp
qed

text \<open>
  In a table read from the greatest key to the least, the first pattern that matches is
  the greatest one that matches: it is the longest.
\<close>

lemma first_match_is_greatest:
  assumes "sorted_wrt (>) (map fst xs)" and "(q, rq) \<in> set xs" and "P q"
  shows "\<exists>k v. find (\<lambda>(k, v). P k) xs = Some (k, v) \<and> (k, v) \<in> set xs \<and> P k \<and>
           (\<forall>(k', v') \<in> set xs. P k' \<longrightarrow> k' \<le> (k :: string))"
  using assms
proof (induction xs)
  case Nil
  then show ?case by simp
next
  case (Cons a xs)
  obtain h hv where a: "a = (h, hv)" by (cases a)
  show ?case
  proof (cases "P h")
    case True
    from Cons.prems(1) have "\<forall>(k', v') \<in> set xs. k' < h" by (auto simp: a)
    with True show ?thesis by (auto simp: a)
  next
    case False
    with Cons.prems a have q: "(q, rq) \<in> set xs" by auto
    from Cons.prems(1) have "sorted_wrt (>) (map fst xs)" by simp
    from Cons.IH [OF this q Cons.prems(3)] False show ?thesis
      by (auto simp: a)
  qed
qed

lemma sorted_keys_value:
  assumes "sorted_keys m" "(k, v) \<in> set m" "(k, v') \<in> set m"
  shows "v = v'"
proof -
  from assms(1) have "distinct (map fst m)"
    by (simp add: sorted_keys_def strict_sorted_iff)
  from eq_key_imp_eq_value [OF this assms(2,3)] show ?thesis .
qed

lemma longest_rule_first:
  assumes m: "sorted_keys m" and q: "(q, rq) \<in> set m" and qne: "q \<noteq> []"
    and match: "prefix q (drop i text)" and size: "length text < 2 ^ 31"
  shows "\<exists>k v. (k, v) \<in> set m \<and> prefix q k \<and> prefix k (drop i text) \<and>
           (\<forall>(k', v') \<in> set m. prefix k' (drop i text) \<longrightarrow> prefix k' k) \<and>
           try_rules text i (rev m) = Inr (Some (i + length k, v))"
proof -
  from m have "sorted_wrt (>) (rev (map fst m))"
    by (simp add: sorted_keys_def sorted_wrt_rev)
  then have "sorted_wrt (>) (map fst (rev m))"
    by (simp only: rev_map)
  moreover from q have "(q, rq) \<in> set (rev m)" by simp
  ultimately obtain k v where f: "find (\<lambda>(k, v). prefix k (drop i text)) (rev m) = Some (k, v)"
    and kin: "(k, v) \<in> set m" and pk: "prefix k (drop i text)"
    and greatest: "\<forall>(k', v') \<in> set m. prefix k' (drop i text) \<longrightarrow> k' \<le> k"
    using first_match_is_greatest [of "rev m" q rq "\<lambda>k. prefix k (drop i text)"] match
    by auto
  from greatest q match have "q \<le> k" by auto
  with match pk have qk: "prefix q k" by (rule prefix_of_greater)
  with qne have kne: "k \<noteq> []" by auto
  from match qne have i: "i < length text"
    by (metis drop_all not_le_imp_less prefix_bot.extremum_uniqueI)
  have "\<forall>(k', v') \<in> set m. prefix k' (drop i text) \<longrightarrow> prefix k' k"
  proof (clarify)
    fix k' v' assume "(k', v') \<in> set m" and pk': "prefix k' (drop i text)"
    with greatest have "k' \<le> k" by auto
    with pk' pk show "prefix k' k" by (rule prefix_of_greater)
  qed
  with kin qk pk try_rules_first_match [OF i size f kne] show ?thesis by blast
qed

subsection \<open>The whole scan\<close>

lemma replace_loop_empty:
  assumes "length text < 2 ^ 31"
  shows "i \<le> length text \<Longrightarrow> replace_loop [] text i out = Inr (out @ drop i text)"
proof (induction "length text - i" arbitrary: i out)
  case 0
  then show ?case by (simp add: replace_loop.simps)
next
  case (Suc n)
  then have lt: "i < length text" by simp
  from Suc(1) [of "Suc i" "out @ [text ! i]"] Suc(2) lt
  have "replace_loop [] text (Suc i) (out @ [text ! i]) = Inr ((out @ [text ! i]) @ drop (Suc i) text)"
    by simp
  with lt assms show ?case
    by (subst replace_loop.simps) (simp add: at_scan Cons_nth_drop_Suc)
qed

lemma replace_map_empty: "length text < 2 ^ 31 \<Longrightarrow> replace_map text [] = Inr text"
  by (simp add: replace_map_def replace_loop_empty)

lemma replace_loop_spec:
  assumes "\<forall>(k, v) \<in> set m. k \<noteq> []" and size: "length text < 2 ^ 31"
  shows "i \<le> length text \<Longrightarrow> replace_loop m text i out = Inr (out @ substitute_spec m (drop i text))"
proof (induction "length text - i" arbitrary: i out rule: less_induct)
  case less
  show ?case
  proof (cases "i < length text")
    case False
    with less.prems show ?thesis
      by (simp add: replace_loop.simps substitute_spec.simps)
  next
    case True
    then obtain c rest' where d: "drop i text = c # rest'" and c: "c = text ! i" and r: "rest' = drop (Suc i) text"
      by (metis Cons_nth_drop_Suc)
    from assms have ne: "\<forall>(k, v) \<in> set (rev m). k \<noteq> []" by simp
    have F: "find (\<lambda>(pattern, replacement). pattern \<noteq> [] \<and> prefix pattern (drop i text)) (rev m)
       = find (\<lambda>(k, v). prefix k (drop i text)) (rev m)"
      using ne by (intro find_cong) auto
    note T = try_rules_find [OF ne True size]
    note A = at_scan [OF True size]
    show ?thesis
    proof (cases "find (\<lambda>(k, v). prefix k (drop i text)) (rev m)")
      case None
      have "replace_loop m text (Suc i) (out @ [text ! i]) = Inr ((out @ [text ! i]) @ substitute_spec m (drop (Suc i) text))"
        using True by (intro less.hyps) auto
      then show ?thesis
        using True None T A F d c r
        by (subst replace_loop.simps, subst substitute_spec.simps) simp
    next
      case (Some a)
      obtain k v where a: "a = (k, v)" by (cases a)
      from Some a have pk: "prefix k (drop i text)"
        by (auto simp: find_Some_iff)
      from Some a have kin: "(k, v) \<in> set (rev m)"
        unfolding find_Some_iff by (metis nth_mem)
      with ne have kne: "k \<noteq> []" by auto
      from prefix_length_le [OF pk] True have le: "i + length k \<le> length text"
        by simp
      have "replace_loop m text (i + length k) (out @ v) = Inr ((out @ v) @ substitute_spec m (drop (i + length k) text))"
      proof (rule less.hyps)
        from kne have "0 < length k" by simp
        with True le show "length text - (i + length k) < length text - i" by arith
      qed (rule le)
      moreover have "drop (length k) (c # rest') = drop (i + length k) text"
        by (simp add: d [symmetric] add.commute)
      ultimately show ?thesis
        using True Some a T F d 
        by (subst replace_loop.simps, subst substitute_spec.simps) simp
    qed
  qed
qed

subsection \<open>Texts of \<open>2^31\<close> bytes and more\<close>

text \<open>
  A text whose size converts to the \<open>int\<close> zero, as one of \<open>2^32\<close> bytes does, is
  taken for the empty string by \<open>at\<close>: with the empty table every byte is copied as
  NUL.
\<close>

lemma replace_loop_empty_nul:
  assumes "int32 (int (length text)) = 0"
  shows "replace_loop [] text i out = Inr (out @ replicate (length text - i) (CHR 0x00))"
proof (induction "length text - i" arbitrary: i out)
  case 0
  then show ?case by (simp add: replace_loop.simps)
next
  case (Suc n)
  then have lt: "i < length text" by simp
  from Suc(2) have "length text - i = Suc (length text - Suc i)" by simp
  then have "replicate (length text - i) (CHR 0x00)
      = CHR 0x00 # replicate (length text - Suc i) (CHR 0x00)"
    by (simp only: replicate_Suc)
  moreover from Suc(1) [of "Suc i" "out @ [CHR 0x00]"] Suc(2)
  have "replace_loop [] text (Suc i) (out @ [CHR 0x00])
      = Inr ((out @ [CHR 0x00]) @ replicate (length text - Suc i) (CHR 0x00))"
    by simp
  ultimately show ?case
    using lt assms by (subst replace_loop.simps) (simp add: at_def)
qed

text \<open>
  On a text of \<open>2^31 + 1\<close> bytes the size converts to \<open>- (2^31 - 1)\<close>: the indices
  below \<open>2^31\<close> are read modulo \<open>2^31 - 1\<close>, and the index \<open>2^31\<close> converts to
  \<open>- 2^31\<close>, for which \<open>std::string::at\<close> throws.
\<close>

lemma at_below_wrap:
  assumes "length text = 2147483649" "i < 2147483648"
  shows "\<exists>c. at text (int_of_size_t i) = Inr c"
proof -
  from assms(2) have s: "sint (int_of_size_t i) = int i"
    by (simp add: sint_int_of_size_t)
  have "int i smod 2147483647 = int i mod 2147483647"
    by (simp add: smod_mod_positive)
  moreover have "int i mod 2147483647 < 2147483647" "0 \<le> int i mod 2147483647"
    by simp_all
  then have "size_t (int i mod 2147483647) = nat (int i mod 2147483647)"
    by (intro size_t_id) simp_all
  ultimately show ?thesis
    using assms(1) by (simp add: at_def int32_def s smod_minus_eq std_string_at_def)
qed

lemma at_wrap_throws:
  assumes "length text = 2147483649"
  shows "at text (int_of_size_t 2147483648) = Inl out_of_range"
  using assms by (simp add: at_def int32_def int_of_size_t_def size_t_def std_string_at_def)

lemma replace_loop_empty_throws:
  assumes "length text = 2147483649"
  shows "i \<le> 2147483648 \<Longrightarrow> replace_loop [] text i out = Inl out_of_range"
proof (induction "2147483648 - i" arbitrary: i out)
  case 0
  then have "i = 2147483648" by simp
  with assms at_wrap_throws [OF assms] show ?case
    by (subst replace_loop.simps) simp
next
  case (Suc n)
  then have lt: "i < 2147483648" by simp
  from at_below_wrap [OF assms lt] obtain c where c: "at text (int_of_size_t i) = Inr c" ..
  from Suc(1) [of "Suc i" "out @ [c]"] Suc(2) lt
  have "replace_loop [] text (Suc i) (out @ [c]) = Inl out_of_range" by simp
  with lt assms c show ?case
    by (subst replace_loop.simps) simp
qed

text \<open>One rule for a single character, on a text made of that character.\<close>

lemma replace_loop_replicate:
  assumes "n < 2 ^ 31"
  shows "i \<le> n \<Longrightarrow>
    replace_loop [([c], r)] (replicate n c) i out = Inr (out @ concat (replicate (n - i) r))"
proof (induction "n - i" arbitrary: i out)
  case 0
  then show ?case by (simp add: replace_loop.simps)
next
  case (Suc d)
  then have lt: "i < n" by simp
  from Suc(2) have ni: "n - i = Suc (n - Suc i)" by simp
  have "drop i (replicate n c) = c # replicate (n - Suc i) c"
    by (simp add: ni)
  then have "prefix [c] (drop i (replicate n c))" by simp
  with lt assms have "try_rules (replicate n c) i [([c], r)] = Inr (Some (Suc i, r))"
    by (simp add: try_rules_step del: try_rules.simps)
  moreover from Suc(1) [of "Suc i" "out @ r"] Suc(2) lt
  have "replace_loop [([c], r)] (replicate n c) (Suc i) (out @ r)
      = Inr ((out @ r) @ concat (replicate (n - Suc i) r))"
    by simp
  moreover have "concat (replicate (n - i) r) = r @ concat (replicate (n - Suc i) r)"
    by (simp add: ni)
  ultimately show ?case
    using lt by (subst replace_loop.simps) simp
qed

subsection \<open>Claims on \<open>replace_map\<close>\<close>

text \<open>
  Claim C1, as amended. The table of \<open>replace_map\<close> is a key-ordered map: whatever the
  order in which the rules were registered, its entries are strictly ascending in the
  pattern and hold exactly the registered patterns. On a text of fewer than \<open>2^31\<close>
  bytes the rules are tried at each scan position from the greatest pattern to the least
  (not from the most recently registered to the first), and the first rule whose pattern
  starts at that position is applied. So \<open>replace_map\<close> computes what the algorithm of
  the specification computes when it is given the rules in ascending order of their
  patterns. (Rules with an empty pattern are left out here.)
\<close>

theorem replace_map_descending_key_order:
  assumes "\<forall>(k, v) \<in> set rules. k \<noteq> []" and "length text < 2 ^ 31"
  shows "sorted_wrt (<) (map fst (register rules)) \<and>
         set (map fst (register rules)) = set (map fst rules) \<and>
         (\<forall>i<length text.
            try_rules text i (rev (register rules)) =
              Inr (map_option (\<lambda>(k, v). (i + length k, v))
                    (find (\<lambda>(k, v). prefix k (drop i text)) (rev (register rules))))) \<and>
         replace_map text (register rules) = Inr (substitute_spec (register rules) text)"
proof -
  from assms(1) have "\<forall>k \<in> set (map fst rules). k \<noteq> []" by auto
  then have "\<forall>k \<in> set (map fst (register rules)). k \<noteq> []"
    by (simp only: keys_register)
  then have ne: "\<forall>(k, v) \<in> set (register rules). k \<noteq> []" by auto
  then have ne': "\<forall>(k, v) \<in> set (rev (register rules)). k \<noteq> []" by simp
  have "replace_map text (register rules) = Inr (substitute_spec (register rules) text)"
    using replace_loop_spec [OF ne assms(2), of 0 "[]"] by (simp add: replace_map_def)
  moreover have "\<forall>i<length text.
            try_rules text i (rev (register rules)) =
              Inr (map_option (\<lambda>(k, v). (i + length k, v))
                    (find (\<lambda>(k, v). prefix k (drop i text)) (rev (register rules))))"
    using try_rules_find [OF ne' _ assms(2)] by simp
  ultimately show ?thesis
    using sorted_keys_register [of rules] keys_register [of rules]
    by (simp only: sorted_keys_def simp_thms)
qed

text \<open>An instance: two rules registered longer first.\<close>

theorem replace_map_descending_key_order_witness:
  "''ab'' \<noteq> [] \<and> ''a'' \<noteq> [] \<and> length ''ab'' < (2 :: nat) ^ 31 \<and>
   register [(''ab'', ''1''), (''a'', ''2'')] = [(''a'', ''2''), (''ab'', ''1'')] \<and>
   try_rules ''ab'' 0 (rev (register [(''ab'', ''1''), (''a'', ''2'')])) = Inr (Some (2, ''1'')) \<and>
   replace_map ''ab'' (register [(''ab'', ''1''), (''a'', ''2'')]) =
     Inr (substitute_spec (register [(''ab'', ''1''), (''a'', ''2'')]) ''ab'')"
  using replace_map_descending_key_order [of "[(''ab'', ''1''), (''a'', ''2'')]" "''ab''"]
  by (simp add: register_def try_rules_step del: try_rules.simps(2))

text \<open>
  Claim C1 as stated fails: with \<open>ab \<mapsto> 1\<close> registered first and \<open>a \<mapsto> 2\<close>
  registered last, trying the most recently registered rule first rewrites \<open>ab\<close> to
  \<open>2b\<close>; \<open>replace_map\<close> tries \<open>ab\<close> first, the greater key, and returns \<open>1\<close>.
  It fails on large texts as well: on a text of \<open>2^32\<close> bytes, all of them \<open>a\<close>,
  the only rule \<open>a \<mapsto> b\<close> starts at position 0 and is not applied, the comparison
  being made with the static NUL character.
\<close>

theorem replace_map_registration_order_counterexample:
  "replace_map ''ab'' (register [(''ab'', ''1''), (''a'', ''2'')]) = Inr ''1'' \<and>
   substitute_spec [(''ab'', ''1''), (''a'', ''2'')] ''ab'' = ''2b'' \<and>
   prefix ''a'' (drop 0 (CHR ''a'' # replicate 4294967295 (CHR ''a''))) \<and>
   try_rules (CHR ''a'' # replicate 4294967295 (CHR ''a'')) 0 (rev (register [(''a'', ''b'')]))
     = Inr None"
  by (simp add: register_def replace_map_def replace_loop.simps substitute_spec.simps
      at_place_def at_def std_string_at_def int32_def size_t_def int_of_size_t_def bytes_at_def)

text \<open>
  Claim C5, as amended. When no rule has an empty pattern and the text has fewer than
  \<open>2^31\<close> bytes, \<open>replace_map\<close> returns an output, and every rule applied at a scan
  position moves the position forward by at least one and never beyond the end of the
  text. On the empty text the output is empty for every table, one with an empty pattern
  included.
\<close>

theorem replace_map_progress:
  assumes "\<forall>(k, v) \<in> set replacements. k \<noteq> []" and "length text < 2 ^ 31"
  shows "(\<exists>out. replace_map text replacements = Inr out) \<and>
         (\<forall>i<length text. \<forall>i' r.
            try_rules text i (rev replacements) = Inr (Some (i', r)) \<longrightarrow> i < i' \<and> i' \<le> length text) \<and>
         replace_map [] any_replacements = Inr []"
proof -
  have "replace_map text replacements = Inr (substitute_spec replacements text)"
    using replace_loop_spec [OF assms, of 0 "[]"] by (simp add: replace_map_def)
  moreover have "\<forall>i<length text. \<forall>i' r.
            try_rules text i (rev replacements) = Inr (Some (i', r)) \<longrightarrow> i < i' \<and> i' \<le> length text"
    by (auto dest: try_rules_advance try_rules_bound)
  moreover have "replace_map [] any_replacements = Inr []"
    by (simp add: replace_map_def replace_loop.simps)
  ultimately show ?thesis by simp
qed

text \<open>An instance, with the empty text scanned under a table holding an empty pattern.\<close>

theorem replace_map_progress_witness:
  "''a'' \<noteq> [] \<and> length ''aca'' < (2 :: nat) ^ 31 \<and>
   replace_map ''aca'' [(''a'', ''bb'')] = Inr ''bbcbb'' \<and>
   try_rules ''aca'' 0 (rev [(''a'', ''bb'')]) = Inr (Some (1, ''bb'')) \<and>
   replace_map [] [('''', ''x'')] = Inr []"
  using replace_map_progress [of "[(''a'', ''bb'')]" "''aca''" "[('''', ''x'')]"]
  by (simp add: replace_map_def replace_loop.simps try_rules_step at_scan del: try_rules.simps(2))

text \<open>
  Claim C5 as stated fails: an empty pattern is neither rejected when the table is built
  nor skipped by the scan. Where no other rule matches, the scan reaches it and
  \<open>target.at(0)\<close> throws \<open>std::out_of_range\<close>: no output is produced. Nor is an
  output produced on every input when no pattern is empty: on a text of \<open>2^31 + 1\<close>
  bytes the copy of the byte at index \<open>2^31\<close> throws, even with no rule at all.
\<close>

theorem replace_map_empty_pattern_counterexample:
  "replace_map ''a'' (register [('''', ''x'')]) = Inl out_of_range \<and>
   replace_map (replicate 2147483649 (CHR ''a'')) (register []) = Inl out_of_range"
  using replace_loop_empty_throws [of "replicate 2147483649 (CHR ''a'')" 0 "[]"]
  by (simp add: register_def replace_map_def replace_loop.simps)

text \<open>
  Claim C6, as amended. Let a table hold a rule for \<open>p\<close> and a rule for \<open>q\<close>, with
  \<open>p\<close> a proper prefix of \<open>q\<close>, registered in whatever order, and let \<open>q\<close> (hence
  \<open>p\<close>) start at scan position \<open>i\<close> of a text of fewer than \<open>2^31\<close> bytes. Then
  the rule applied at \<open>i\<close> is that of the longest pattern of the table that starts at
  \<open>i\<close>, which is \<open>q\<close> or a pattern that extends \<open>q\<close>, never \<open>p\<close>: the scan
  continues after it with its replacement appended. It is the rule for \<open>q\<close> when no
  pattern of the table that properly extends \<open>q\<close> starts at \<open>i\<close>.
\<close>

theorem replace_map_longer_prefix_wins:
  assumes "(p, rp) \<in> set (register rules)" and "(q, rq) \<in> set (register rules)"
    and "strict_prefix p q" and "prefix q (drop i text)" and "length text < 2 ^ 31"
  shows "(\<exists>k v. (k, v) \<in> set (register rules) \<and> prefix q k \<and> k \<noteq> p \<and>
            prefix k (drop i text) \<and>
            (\<forall>(k', v') \<in> set (register rules). prefix k' (drop i text) \<longrightarrow> prefix k' k) \<and>
            try_rules text i (rev (register rules)) = Inr (Some (i + length k, v)) \<and>
            replace_loop (register rules) text i out =
              replace_loop (register rules) text (i + length k) (out @ v)) \<and>
         ((\<forall>(k, v) \<in> set (register rules). strict_prefix q k \<longrightarrow> \<not> prefix k (drop i text)) \<longrightarrow>
            try_rules text i (rev (register rules)) = Inr (Some (i + length q, rq)) \<and>
            replace_loop (register rules) text i out =
              replace_loop (register rules) text (i + length q) (out @ rq))"
proof -
  from assms(3) have qne: "q \<noteq> []" by auto
  with assms(4) have i: "i < length text"
    by (metis drop_all not_le_imp_less prefix_bot.extremum_uniqueI)
  from longest_rule_first [OF sorted_keys_register assms(2) qne assms(4,5)]
  obtain k v where kin: "(k, v) \<in> set (register rules)" and qk: "prefix q k"
    and pk: "prefix k (drop i text)"
    and longest: "\<forall>(k', v') \<in> set (register rules). prefix k' (drop i text) \<longrightarrow> prefix k' k"
    and step: "try_rules text i (rev (register rules)) = Inr (Some (i + length k, v))"
    by blast
  from i step have loop: "replace_loop (register rules) text i out =
      replace_loop (register rules) text (i + length k) (out @ v)"
    by (subst replace_loop.simps) simp
  have "k = q \<and> v = rq"
    if none: "\<forall>(k, v) \<in> set (register rules). strict_prefix q k \<longrightarrow> \<not> prefix k (drop i text)"
  proof -
    from none kin pk have "\<not> strict_prefix q k" by auto
    with qk have "k = q" by (simp add: strict_prefix_def)
    moreover from this kin assms(2) have "v = rq"
      using sorted_keys_value [OF sorted_keys_register] by blast
    ultimately show ?thesis by simp
  qed
  moreover from qk assms(3) have "k \<noteq> p" by auto
  ultimately show ?thesis using kin qk pk longest step loop by blast
qed

text \<open>
  An instance: \<open>a\<close> registered first, \<open>ab\<close> later, both starting at position 1,
  in a table with no other pattern.
\<close>

theorem replace_map_longer_prefix_wins_witness:
  "(''a'', ''1'') \<in> set (register [(''a'', ''1''), (''ab'', ''2'')]) \<and>
   (''ab'', ''2'') \<in> set (register [(''a'', ''1''), (''ab'', ''2'')]) \<and>
   strict_prefix ''a'' ''ab'' \<and> prefix ''ab'' (drop 1 ''xabc'') \<and>
   length ''xabc'' < (2 :: nat) ^ 31 \<and>
   map fst (register [(''a'', ''1''), (''ab'', ''2'')]) = [''a'', ''ab''] \<and>
   try_rules ''xabc'' 1 (rev (register [(''a'', ''1''), (''ab'', ''2'')])) = Inr (Some (3, ''2'')) \<and>
   replace_map ''xabc'' (register [(''a'', ''1''), (''ab'', ''2'')]) = Inr ''x2c''"
  using replace_map_longer_prefix_wins [of "''a''" "''1''" "[(''a'', ''1''), (''ab'', ''2'')]"
      "''ab''" "''2''" 1 "''xabc''" "[]"]
  by (simp add: register_def replace_map_def replace_loop.simps try_rules_step at_scan
      del: try_rules.simps(2))

text \<open>
  Claim C6 as stated fails: with the rules \<open>a\<close>, \<open>ab\<close> and \<open>abc\<close>, registered in
  this order, the patterns \<open>a\<close> and \<open>ab\<close> both start at position 0 of \<open>abc\<close>, and
  the rule applied there is that of \<open>abc\<close>, not that of \<open>ab\<close>. It fails on large texts
  as well: on a text of \<open>2^32\<close> bytes, all of them \<open>a\<close>, with the empty pattern and
  \<open>a\<close> registered in this order, the comparison for \<open>a\<close> is made with the static NUL
  character, the rule for \<open>a\<close> is not applied and the scan throws at the empty
  pattern.
\<close>

theorem replace_map_longest_pattern_counterexample:
  "strict_prefix ''a'' ''ab'' \<and> prefix ''ab'' (drop 0 ''abc'') \<and>
   try_rules ''abc'' 0 (rev (register [(''a'', ''1''), (''ab'', ''2''), (''abc'', ''3'')]))
     = Inr (Some (3, ''3'')) \<and>
   replace_map ''abc'' (register [(''a'', ''1''), (''ab'', ''2''), (''abc'', ''3'')]) = Inr ''3'' \<and>
   strict_prefix '''' ''a'' \<and>
   prefix ''a'' (drop 0 (CHR ''a'' # replicate 4294967295 (CHR ''a''))) \<and>
   try_rules (CHR ''a'' # replicate 4294967295 (CHR ''a'')) 0
       (rev (register [('''', ''1''), (''a'', ''2'')]))
     = Inl out_of_range"
  by (simp add: register_def replace_map_def replace_loop.simps
      at_place_def at_def std_string_at_def int32_def size_t_def int_of_size_t_def bytes_at_def)

text \<open>
  Claim C8, as amended. When \<open>replace_map\<close> returns a result of fewer than \<open>2^31\<close>
  bytes, running \<open>replace_map\<close> with the empty table on that result returns it
  unchanged: the composition of the two calls equals the first call.
\<close>

theorem replace_map_then_empty_table:
  assumes "replace_map text replacements = Inr result" and "length result < 2 ^ 31"
  shows "replace_map result [] = Inr result \<and>
         (case replace_map text replacements of Inl e \<Rightarrow> Inl e | Inr t \<Rightarrow> replace_map t [])
           = replace_map text replacements"
  using assms by (simp add: replace_map_empty)

text \<open>An instance.\<close>

theorem replace_map_then_empty_table_witness:
  "replace_map ''aca'' (register [(''a'', ''bb'')]) = Inr ''bbcbb'' \<and>
   length ''bbcbb'' < (2 :: nat) ^ 31 \<and>
   replace_map ''bbcbb'' [] = Inr ''bbcbb''"
  using replace_map_then_empty_table [of "''aca''" "register [(''a'', ''bb'')]" "''bbcbb''"]
  by (simp add: register_def replace_map_def replace_loop.simps try_rules_step at_scan
      del: try_rules.simps(2))

text \<open>
  Claim C8 as stated fails: with the rule \<open>a \<mapsto> bcde\<close> a text of \<open>2^30\<close> bytes,
  all of them \<open>a\<close>, is rewritten to a result of \<open>2^32\<close> bytes; its size converts to
  the \<open>int\<close> zero, and \<open>replace_map\<close> with the empty table returns \<open>2^32\<close> NUL
  bytes in its place.
\<close>

theorem replace_map_huge_result_counterexample:
  "replace_map (replicate 1073741824 (CHR ''a'')) (register [(''a'', ''bcde'')])
     = Inr (concat (replicate 1073741824 ''bcde'')) \<and>
   replace_map (concat (replicate 1073741824 ''bcde'')) (register [])
     = Inr (replicate 4294967296 (CHR 0x00)) \<and>
   concat (replicate 1073741824 ''bcde'') \<noteq> replicate 4294967296 (CHR 0x00)"
proof -
  have n: "(1073741824 :: nat) = Suc 1073741823" "(4294967296 :: nat) = Suc 4294967295"
    by simp_all
  have len: "length (concat (replicate 1073741824 ''bcde'')) = 4294967296"
    by (simp add: length_concat sum_list_replicate)
  have first: "replace_map (replicate 1073741824 (CHR ''a'')) (register [(''a'', ''bcde'')])
     = Inr (concat (replicate 1073741824 ''bcde''))"
    using replace_loop_replicate [of 1073741824 0 "CHR ''a''" "''bcde''" "[]"]
    by (simp add: register_def replace_map_def)
  have second: "replace_map (concat (replicate 1073741824 ''bcde'')) (register [])
     = Inr (replicate 4294967296 (CHR 0x00))"
    using replace_loop_empty_nul [of "concat (replicate 1073741824 ''bcde'')" 0 "[]"]
    by (simp add: register_def replace_map_def len int32_def)
  have b: "hd (concat (replicate 1073741824 ''bcde'')) = CHR ''b''"
    by (subst n(1)) (simp only: replicate_Suc concat.simps append_Cons list.sel)
  have nul: "hd (replicate 4294967296 (CHR 0x00)) = CHR 0x00"
    by (subst n(2)) (simp only: replicate_Suc list.sel)
  have "concat (replicate 1073741824 ''bcde'') \<noteq> replicate 4294967296 (CHR 0x00)"
  proof
    assume "concat (replicate 1073741824 ''bcde'') = replicate 4294967296 (CHR 0x00)"
    then have "hd (concat (replicate 1073741824 ''bcde'')) = hd (replicate 4294967296 (CHR 0x00))"
      by (simp only:)
    then have "CHR ''b'' = CHR 0x00" by (simp only: b nul)
    then show False by simp
  qed
  with first second show ?thesis by (simp only: simp_thms)
qed

section \<open>\<open>wire::string::matches\<close>\<close>

text \<open>
  \<open>matches\<close> hands \<open>pattern.c_str()\<close> and \<open>this->c_str()\<close> to the local function
  \<open>match\<close>, which reads both as C strings: up to the first NUL byte. In \<open>match\<close>
  the empty list stands for a pointer at the terminating NUL.
\<close>

definition c_str :: "string \<Rightarrow> string" where
  "c_str s = takeWhile (\<lambda>c. c \<noteq> CHR 0x00) s"

fun match :: "string \<Rightarrow> string \<Rightarrow> bool" where
  "match [] str = (str = [])"
| "match (p # pattern) str =
     (if p = CHR ''*'' then
        (match pattern str \<or> (case str of [] \<Rightarrow> False | c # str' \<Rightarrow> match (p # pattern) str'))
      else if p = CHR ''?'' then
        (case str of [] \<Rightarrow> False | c # str' \<Rightarrow> c \<noteq> CHR ''.'' \<and> match pattern str')
      else
        (case str of [] \<Rightarrow> False | c # str' \<Rightarrow> c = p \<and> match pattern str'))"

definition matches :: "string \<Rightarrow> string \<Rightarrow> bool" where
  "matches self pattern = match (c_str pattern) (c_str self)"

lemma c_str_Cons: "c_str (c # s) = (if c = CHR 0x00 then [] else c # c_str s)"
  by (simp add: c_str_def)

lemma match_question:
  "match (CHR ''?'' # pattern) str \<longleftrightarrow>
     (\<exists>c str'. str = c # str' \<and> c \<noteq> CHR ''.'' \<and> match pattern str')"
  by (cases str) auto

lemma match_literal:
  "p \<noteq> CHR ''*'' \<Longrightarrow> p \<noteq> CHR ''?'' \<Longrightarrow>
   match (p # pattern) str \<longleftrightarrow> (\<exists>str'. str = p # str' \<and> match pattern str')"
  by (cases str) auto

text \<open>
  Claim C4, as amended. The pattern character \<open>?\<close> matches exactly one character of
  the text that is not the dot \<open>.\<close> (and not the NUL that ends the text); every pattern
  character other than \<open>*\<close>, \<open>?\<close> and NUL matches only itself.
\<close>

theorem matches_question_and_literal:
  "(matches self (CHR ''?'' # pattern) \<longleftrightarrow>
      (\<exists>c rest. self = c # rest \<and> c \<noteq> CHR 0x00 \<and> c \<noteq> CHR ''.'' \<and> matches rest pattern)) \<and>
   (p \<notin> {CHR ''*'', CHR ''?'', CHR 0x00} \<longrightarrow>
      (matches self (p # pattern) \<longleftrightarrow> (\<exists>rest. self = p # rest \<and> matches rest pattern)))"
proof -
  have q: "matches self (CHR ''?'' # pattern) \<longleftrightarrow>
      (\<exists>c rest. self = c # rest \<and> c \<noteq> CHR 0x00 \<and> c \<noteq> CHR ''.'' \<and> matches rest pattern)"
    unfolding matches_def
    by (cases self) (simp_all add: c_str_Cons match_question, simp add: c_str_def)
  have l: "matches self (p # pattern) \<longleftrightarrow> (\<exists>rest. self = p # rest \<and> matches rest pattern)"
    if "p \<noteq> CHR ''*''" "p \<noteq> CHR ''?''" "p \<noteq> CHR 0x00"
    unfolding matches_def using that
    by (cases self) (auto simp add: c_str_Cons match_literal, simp_all add: c_str_def)
  from q l show ?thesis by auto
qed

text \<open>An instance with the literal \<open>b\<close>.\<close>

theorem matches_question_and_literal_witness:
  "CHR ''b'' \<notin> {CHR ''*'', CHR ''?'', CHR 0x00} \<and>
   matches ''ab'' ''?b'' \<and> matches ''b'' ''b'' \<and> \<not> matches ''ab'' ''b''"
  using matches_question_and_literal [of "''ab''" "''b''" "CHR ''b''"]
    matches_question_and_literal [of "''b''" "[]" "CHR ''b''"]
  by (simp add: matches_def c_str_def)

text \<open>
  Claim C4 as stated fails: \<open>?\<close> matches the line separators LF and CR and the record
  separator RS, and it does not match the dot, which is none of them.
\<close>

theorem matches_question_separator_counterexample:
  "matches [CHR 0x0A] ''?'' \<and> matches [CHR 0x0D] ''?'' \<and> matches [CHR 0x1E] ''?'' \<and>
   \<not> matches ''.'' ''?''"
  by (simp add: matches_def c_str_def)

section \<open>\<open>wire::as\<close>\<close>

text \<open>
  \<open>as<T>\<close> first reads a \<open>T\<close> from a \<open>std::istringstream\<close> over the string. The
  stream's \<open>operator>>\<close> belongs to the standard library, not to this repository; the
  template takes it as the parameter \<open>stream_extract\<close>, \<open>None\<close> when the stream ends
  in a failed state. \<open>cast\<close> is the conversion \<open>(T)(is_true)\<close>.
\<close>

definition as :: "(string \<Rightarrow> 'a option) \<Rightarrow> (bool \<Rightarrow> 'a) \<Rightarrow> string \<Rightarrow> 'a" where
  "as stream_extract cast self =
     (case stream_extract self of
        Some t \<Rightarrow> t
      | None \<Rightarrow> cast (self \<noteq> [] \<and> self \<noteq> ''0'' \<and> self \<noteq> ''false''))"

text \<open>
  The standard library's extraction of an integer in the classic locale: leading white
  space is skipped, then an optional sign and the longest run of decimal digits are read;
  with no digit the extraction fails. Reading an \<open>int\<close> fails as well when the value
  does not fit 32 bits; reading a \<open>bool\<close> (without \<open>boolalpha\<close>) succeeds on the
  values 0 and 1 only.
\<close>

definition isspace :: "char \<Rightarrow> bool" where
  "isspace c = (c \<in> {CHR '' '', CHR 0x09, CHR 0x0A, CHR 0x0B, CHR 0x0C, CHR 0x0D})"

definition isdigit :: "char \<Rightarrow> bool" where
  "isdigit c = (CHR ''0'' \<le> c \<and> c \<le> CHR ''9'')"

definition digits_value :: "string \<Rightarrow> int" where
  "digits_value ds = foldl (\<lambda>acc c. 10 * acc + (of_char c - 48)) 0 ds"

definition parse_integer :: "string \<Rightarrow> int option" where
  "parse_integer s =
     (let s1 = dropWhile isspace s;
          negative = (case s1 of [] \<Rightarrow> False | c # _ \<Rightarrow> c = CHR ''-'');
          s2 = (case s1 of [] \<Rightarrow> [] | c # r \<Rightarrow> if c = CHR ''-'' \<or> c = CHR ''+'' then r else s1);
          ds = takeWhile isdigit s2
      in if ds = [] then None
         else Some (if negative then - digits_value ds else digits_value ds))"

definition stream_extract_int :: "string \<Rightarrow> int option" where
  "stream_extract_int s =
     (case parse_integer s of
        None \<Rightarrow> None
      | Some v \<Rightarrow> if - (2 ^ 31) \<le> v \<and> v < 2 ^ 31 then Some v else None)"

definition stream_extract_bool :: "string \<Rightarrow> bool option" where
  "stream_extract_bool s =
     (case parse_integer s of
        None \<Rightarrow> None
      | Some v \<Rightarrow> if v = 0 then Some False else if v = 1 then Some True else None)"

text \<open>
  The instances \<open>as<int>\<close> and \<open>as<bool>\<close> of the template, and the specialisation
  for \<open>char\<close> (\<open>signed char\<close> and \<open>unsigned char\<close> have the same body): a string of
  size 1 is its character, any other goes through \<open>as<int>\<close> and is narrowed.
\<close>

definition as_int :: "string \<Rightarrow> int" where
  "as_int = as stream_extract_int (\<lambda>is_true. if is_true then 1 else 0)"

definition as_bool :: "string \<Rightarrow> bool" where
  "as_bool = as stream_extract_bool (\<lambda>is_true. is_true)"

definition as_char :: "string \<Rightarrow> char" where
  "as_char self = (if length self = 1 then self ! 0 else char_of (as_int self))"

text \<open>
  Claim C7, as amended. For every target type converted by the template \<open>as<T>\<close>,
  which are all the primitive ones but the character types (\<open>bool\<close>, \<open>int\<close>,
  \<open>unsigned\<close>, \<open>size_t\<close>, \<open>float\<close>, \<open>double\<close>), the conversion first attempts
  the extraction of a value of the type, whatever that extraction is; when it fails, the
  result is false converted to the type for the empty string and the strings \<open>0\<close> and
  \<open>false\<close>, and true converted to the type for any other string. The instances for
  \<open>int\<close> and \<open>bool\<close> are written out. For a character target type this holds, through
  \<open>as<int>\<close> and narrowing, for the strings whose length is not 1 only: a string of one
  character converts to that character.
\<close>

theorem as_numeric_then_truthy:
  "as stream_extract cast self =
     (case stream_extract self of
        Some t \<Rightarrow> t
      | None \<Rightarrow> if self = [] \<or> self = ''0'' \<or> self = ''false'' then cast False
                else cast True) \<and>
   as_int self = (case stream_extract_int self of
                    Some n \<Rightarrow> n
                  | None \<Rightarrow> if self = [] \<or> self = ''0'' \<or> self = ''false'' then 0 else 1) \<and>
   as_bool self = (case stream_extract_bool self of
                     Some b \<Rightarrow> b
                   | None \<Rightarrow> \<not> (self = [] \<or> self = ''0'' \<or> self = ''false'')) \<and>
   as_char self = (if length self = 1 then hd self else char_of (as_int self)) \<and>
   as_int [] = 0 \<and> as_int ''0'' = 0 \<and> as_int ''false'' = 0 \<and>
   \<not> as_bool [] \<and> \<not> as_bool ''0'' \<and> \<not> as_bool ''false''"
proof -
  have "as_char self = (if length self = 1 then hd self else char_of (as_int self))"
    by (cases self) (simp_all add: as_char_def)
  moreover have "as_int [] = 0 \<and> as_int ''0'' = 0 \<and> as_int ''false'' = 0"
    by (simp add: as_int_def as_def stream_extract_int_def parse_integer_def isspace_def
        isdigit_def digits_value_def)
  moreover have "\<not> as_bool [] \<and> \<not> as_bool ''0'' \<and> \<not> as_bool ''false''"
    by (simp add: as_bool_def as_def stream_extract_bool_def parse_integer_def isspace_def
        isdigit_def digits_value_def)
  moreover have "as stream_extract cast self =
     (case stream_extract self of
        Some t \<Rightarrow> t
      | None \<Rightarrow> if self = [] \<or> self = ''0'' \<or> self = ''false'' then cast False
                else cast True)"
    by (simp add: as_def split: option.split)
  ultimately show ?thesis
    by (simp add: as_int_def as_bool_def as_def split: option.split)
qed

text \<open>
  Claim C7 as stated fails for the character target type: the string \<open>0\<close> parses as
  the number 0, and by the truthiness rule it is false, yet \<open>as<char>\<close> returns the
  character \<open>0\<close> (code 48).
\<close>

theorem as_char_bypass_counterexample:
  "stream_extract_int ''0'' = Some 0 \<and> as_int ''0'' = 0 \<and>
   as_char ''0'' = CHR ''0'' \<and> CHR ''0'' \<noteq> char_of (0 :: int)"
  by (simp add: as_char_def as_int_def as_def stream_extract_int_def parse_integer_def
      isspace_def isdigit_def digits_value_def char_of_def)

text \<open>
  Claim C10. For a character target type a string of length exactly 1 converts to its
  single character; a string of any other length goes through the integer extraction,
  with the truthiness fallback when it fails, and the result is narrowed to the character
  type.
\<close>

theorem as_char_single_character:
  "(length self = 1 \<longrightarrow> as_char self = hd self) \<and>
   (length self \<noteq> 1 \<longrightarrow>
      as_char self = char_of (case stream_extract_int self of
                                Some n \<Rightarrow> n
                              | None \<Rightarrow> if self = [] \<or> self = ''false'' then 0 else (1 :: int)))"
proof -
  have "as_char self = hd self" if "length self = 1"
    using that by (cases self) (simp_all add: as_char_def)
  moreover have "as_char self = char_of (case stream_extract_int self of
                                Some n \<Rightarrow> n
                              | None \<Rightarrow> if self = [] \<or> self = ''false'' then 0 else (1 :: int))"
    if "length self \<noteq> 1"
  proof -
    from that have "self \<noteq> ''0''" by auto
    with that show ?thesis
      by (auto simp add: as_char_def as_int_def as_def split: option.split)
  qed
  ultimately show ?thesis by blast
qed

text \<open>Instances: one character, a number, the two truthiness cases, and a narrowed number.\<close>

theorem as_char_single_character_witness:
  "length ''7'' = 1 \<and> as_char ''7'' = CHR ''7'' \<and>
   length ''65'' \<noteq> 1 \<and> as_char ''65'' = CHR ''A'' \<and>
   length ''false'' \<noteq> 1 \<and> as_char ''false'' = CHR 0x00 \<and>
   length ''yes'' \<noteq> 1 \<and> as_char ''yes'' = CHR 0x01 \<and>
   length ''321'' \<noteq> 1 \<and> as_char ''321'' = CHR ''A''"
  using as_char_single_character [of "''7''"] as_char_single_character [of "''65''"]
    as_char_single_character [of "''false''"] as_char_single_character [of "''yes''"]
    as_char_single_character [of "''321''"]
  by (simp add: stream_extract_int_def parse_integer_def isspace_def isdigit_def digits_value_def
      char_of_def bit_iff_odd_drop_bit drop_bit_eq_div)

section \<open>The variable store and \<open>wire::translate\<close>\<close>

text \<open>
  Modelled from the spec: \<open>wire.hpp\<close> only declares \<open>extract\<close>, \<open>translate\<close> and
  \<open>locate\<close>; their bodies and the variable store are not in the source. The
  definitions of this section follow sections 3 and 4.3 to 4.5 of the specification.

  The store maps a variable name to its value, with unique keys; it is kept as the list
  of its entries. \<open>locate\<close> returns the value of a name and the store after the lookup:
  a missing name is inserted with the empty value.
\<close>

type_synonym store = "(string \<times> string) list"

definition locate :: "store \<Rightarrow> string \<Rightarrow> string \<times> store" where
  \<comment> \<open>Modelled from the spec: section 4.3, locate on a missing name inserts (name, "") and returns that slot.\<close>
  "locate st name =
     (case map_of st name of
        Some v \<Rightarrow> (v, st)
      | None \<Rightarrow> ([], st @ [(name, [])]))"

text \<open>
  The reference extractor (section 4.4): the input is expected to begin with \<open>sep0\<close>;
  the remainder is split on \<open>sep0\<close> and, when \<open>sep1\<close> is not NUL, on \<open>sep1\<close>;
  adjacent separators produce no empty segment; an input without the leading separator
  is a single segment. The canonical key joins the segments with a dot (section 3).
\<close>

fun split_segments :: "(char \<Rightarrow> bool) \<Rightarrow> string \<Rightarrow> string \<Rightarrow> string list" where
  "split_segments is_sep seg [] = (if seg = [] then [] else [seg])"
| "split_segments is_sep seg (c # cs) =
     (if is_sep c then (if seg = [] then [] else [seg]) @ split_segments is_sep [] cs
      else split_segments is_sep (seg @ [c]) cs)"

definition extract_segments :: "string \<Rightarrow> char \<Rightarrow> char \<Rightarrow> string list" where
  \<comment> \<open>Modelled from the spec: section 4.4, the contract of extract(reference_text, sep0, sep1).\<close>
  "extract_segments reference_text sep0 sep1 =
     (case reference_text of
        [] \<Rightarrow> [reference_text]
      | c # remainder \<Rightarrow>
          if c = sep0
          then split_segments (\<lambda>x. x = sep0 \<or> (sep1 \<noteq> CHR 0x00 \<and> x = sep1)) [] remainder
          else [reference_text])"

fun canonical_key :: "string list \<Rightarrow> string" where
  "canonical_key [] = []"
| "canonical_key [seg] = seg"
| "canonical_key (seg # segs) = seg @ CHR ''.'' # canonical_key segs"

text \<open>
  One left-to-right pass of the translator (section 4.5): at each \<open>$\<close> the match
  extends over the following identifier characters (letters, digits, dot, underscore);
  the reference is handed to the extractor with its default separators, its segments are
  joined into the key, the key is located, and the span of the reference is replaced by
  the stored value. The pass returns the output, the store after the lookups and the
  keys it expanded, in order.
\<close>

definition is_identifier_char :: "char \<Rightarrow> bool" where
  "is_identifier_char c =
     ((CHR ''a'' \<le> c \<and> c \<le> CHR ''z'') \<or> (CHR ''A'' \<le> c \<and> c \<le> CHR ''Z'') \<or>
      (CHR ''0'' \<le> c \<and> c \<le> CHR ''9'') \<or> c = CHR ''.'' \<or> c = CHR ''_'')"

definition reference_key :: "string \<Rightarrow> string" where
  "reference_key rest =
     canonical_key
       (extract_segments (CHR ''$'' # takeWhile is_identifier_char rest) (CHR ''$'') (CHR 0x00))"

function scan :: "store \<Rightarrow> string \<Rightarrow> string \<times> store \<times> string list" where
  \<comment> \<open>Modelled from the spec: section 4.5, one left-to-right pass over the text.\<close>
  "scan st [] = ([], st, [])"
| "scan st (c # rest) =
     (if c = CHR ''$'' then
        (case locate st (reference_key rest) of
           (v, st1) \<Rightarrow>
             (case scan st1 (dropWhile is_identifier_char rest) of
                (out, st2, keys) \<Rightarrow> (v @ out, st2, reference_key rest # keys)))
      else
        (case scan st rest of (out, st1, keys) \<Rightarrow> (c # out, st1, keys)))"
  by pat_completeness auto
termination
  by (relation "measure (\<lambda>(st, text). length text)")
     (auto simp: length_dropWhile_le less_Suc_eq_le)

text \<open>
  The translator: after a full pass, when the output differs from the input, it calls
  itself on the new output, the keys just expanded joining the guard chain; the recursion
  ends when a pass changes nothing, or when a key the pass expanded is already in the
  guard chain: that reference has been replaced by its stored value, unexpanded, the
  pass has gone on to the end of the text, and there is no further call. The
  specification passes one guard and tests against the guard chain; the model passes the
  chain, and a pass over several references adds each of their keys. The top-level call
  has the empty chain (the default guard names no variable).

  The function is defined as a partial function: that it returns on every input is the
  theorem below, not an assumption of the definition.
\<close>

partial_function (option) translate_chain ::
  "store \<Rightarrow> string list \<Rightarrow> string \<Rightarrow> (string \<times> store) option" where
  \<comment> \<open>Modelled from the spec: section 4.5, the recursion of translate with its guard chain.\<close>
  "translate_chain st chain text =
     (case scan st text of
        (out, st1, keys) \<Rightarrow>
          if out = text \<or> (\<exists>k \<in> set keys. k \<in> set chain) then Some (out, st1)
          else translate_chain st1 (chain @ keys) out)"

declare translate_chain.simps [code]

definition translate :: "store \<Rightarrow> string \<Rightarrow> (string \<times> store) option" where
  \<comment> \<open>Modelled from the spec: section 4.5, translate(text, recursion_guard = "").\<close>
  "translate st dollartext = translate_chain st [] dollartext"

subsection \<open>Lookups are not changed by a pass\<close>

definition lookup :: "store \<Rightarrow> string \<Rightarrow> string" where
  "lookup st name = (case map_of st name of Some v \<Rightarrow> v | None \<Rightarrow> [])"

definition defined_names :: "store \<Rightarrow> string set" where
  "defined_names st = {name. lookup st name \<noteq> []}"

lemma fst_locate: "fst (locate st name) = lookup st name"
  by (simp add: locate_def lookup_def split: option.split)

lemma lookup_locate: "lookup (snd (locate st name)) = lookup st"
  by (rule ext) (auto simp: locate_def lookup_def map_add_def split: option.split)

lemma finite_defined_names: "finite (defined_names st)"
proof (rule finite_subset)
  show "defined_names st \<subseteq> fst ` set st"
    by (auto simp: defined_names_def lookup_def map_of_eq_None_iff split: option.splits)
qed simp

lemma scan_lookup: "scan st text = (out, st', keys) \<Longrightarrow> lookup st' = lookup st"
proof (induction "length text" arbitrary: st "text" out st' keys rule: less_induct)
  case less
  show ?case
  proof (cases "text")
    case Nil
    with less.prems show ?thesis by simp
  next
    case (Cons c rest)
    have shorter: "length (dropWhile is_identifier_char rest) < length text" "length rest < length text"
      using length_dropWhile_le [of is_identifier_char rest] by (simp_all add: Cons)
    show ?thesis
    proof (cases "c = CHR ''$''")
      case True
      obtain v st1 where l: "locate st (reference_key rest) = (v, st1)"
        by (cases "locate st (reference_key rest)")
      obtain out2 st2 keys2 where r: "scan st1 (dropWhile is_identifier_char rest) = (out2, st2, keys2)"
        by (cases "scan st1 (dropWhile is_identifier_char rest)")
      from less.prems True l r have "st' = st2" by (simp add: Cons)
      moreover from less.hyps [OF shorter(1) r] have "lookup st2 = lookup st1" .
      moreover from l lookup_locate [of st "reference_key rest"] have "lookup st1 = lookup st" by simp
      ultimately show ?thesis by simp
    next
      case False
      obtain out2 st2 keys2 where r: "scan st rest = (out2, st2, keys2)"
        by (cases "scan st rest")
      from less.prems False r have "st' = st2" by (simp add: Cons)
      with less.hyps [OF shorter(2) r] show ?thesis by simp
    qed
  qed
qed

lemma scan_cong:
  "lookup st1 = lookup st2 \<Longrightarrow>
   fst (scan st1 text) = fst (scan st2 text) \<and> snd (snd (scan st1 text)) = snd (snd (scan st2 text))"
proof (induction "length text" arbitrary: st1 st2 "text" rule: less_induct)
  case less
  show ?case
  proof (cases "text")
    case Nil
    then show ?thesis by simp
  next
    case (Cons c rest)
    have shorter: "length (dropWhile is_identifier_char rest) < length text" "length rest < length text"
      using length_dropWhile_le [of is_identifier_char rest] by (simp_all add: Cons)
    show ?thesis
    proof (cases "c = CHR ''$''")
      case True
      let ?k = "reference_key rest"
      have v: "fst (locate st1 ?k) = fst (locate st2 ?k)"
        using less.prems by (simp add: fst_locate)
      have "lookup (snd (locate st1 ?k)) = lookup (snd (locate st2 ?k))"
        using less.prems by (simp add: lookup_locate)
      from less.hyps [OF shorter(1) this] v True show ?thesis
        by (simp add: Cons case_prod_beta)
    next
      case False
      with less.hyps [OF shorter(2) less.prems] show ?thesis
        by (simp add: Cons case_prod_beta)
    qed
  qed
qed

lemma scan_no_keys: "scan st text = (out, st', []) \<Longrightarrow> out = text"
proof (induction "length text" arbitrary: st "text" out st' rule: less_induct)
  case less
  show ?case
  proof (cases "text")
    case Nil
    with less.prems show ?thesis by simp
  next
    case (Cons c rest)
    with less.prems have c: "c \<noteq> CHR ''$''"
      by (auto split: prod.splits)
    obtain out2 st2 keys2 where r: "scan st rest = (out2, st2, keys2)"
      by (cases "scan st rest")
    with less.prems c have "keys2 = []" "out = c # out2" by (simp_all add: Cons)
    with less.hyps [of rest st out2 st2] r show ?thesis by (simp add: Cons)
  qed
qed

lemma scan_shrinks:
  "scan st text = (out, st', keys) \<Longrightarrow> \<forall>k \<in> set keys. lookup st k = [] \<Longrightarrow>
   length out \<le> length text \<and> (keys \<noteq> [] \<longrightarrow> length out < length text)"
proof (induction "length text" arbitrary: st "text" out st' keys rule: less_induct)
  case less
  show ?case
  proof (cases "text")
    case Nil
    with less.prems show ?thesis by simp
  next
    case (Cons c rest)
    have shorter: "length (dropWhile is_identifier_char rest) < length text" "length rest < length text"
      using length_dropWhile_le [of is_identifier_char rest] by (simp_all add: Cons)
    show ?thesis
    proof (cases "c = CHR ''$''")
      case True
      let ?k = "reference_key rest"
      obtain v st1 where l: "locate st ?k = (v, st1)"
        by (cases "locate st ?k")
      obtain out2 st2 keys2 where r: "scan st1 (dropWhile is_identifier_char rest) = (out2, st2, keys2)"
        by (cases "scan st1 (dropWhile is_identifier_char rest)")
      from less.prems(1) True l r have eq: "out = v @ out2" "keys = ?k # keys2" by (simp_all add: Cons)
      from l fst_locate [of st ?k] have v: "v = lookup st ?k" by simp
      from l lookup_locate [of st ?k] have "lookup st1 = lookup st" by simp
      with less.prems(2) eq have "\<forall>k \<in> set keys2. lookup st1 k = []" by simp
      from less.hyps [OF shorter(1) r this] have "length out2 \<le> length (dropWhile is_identifier_char rest)"
        by simp
      moreover from less.prems(2) eq v have "v = []" by simp
      ultimately show ?thesis
        using length_dropWhile_le [of is_identifier_char rest] eq by (simp add: Cons)
    next
      case False
      obtain out2 st2 keys2 where r: "scan st rest = (out2, st2, keys2)"
        by (cases "scan st rest")
      from less.prems(1) False r have eq: "out = c # out2" "keys = keys2" by (simp_all add: Cons)
      with less.prems(2) have "\<forall>k \<in> set keys2. lookup st k = []" by simp
      from less.hyps [OF shorter(2) r this] eq show ?thesis by (simp add: Cons)
    qed
  qed
qed

subsection \<open>Termination\<close>

text \<open>
  Each recursive call either adds to the guard chain a name with a non-empty value that
  was not in it, or expands only references whose value is empty, which shortens the
  text.
\<close>

definition translate_measure :: "(store \<times> string list \<times> string) \<Rightarrow> nat \<times> nat" where
  "translate_measure = (\<lambda>(st, chain, text). (card (defined_names st - set chain), length text))"

lemma translate_step_smaller:
  assumes s: "scan st text = (out, st1, keys)"
    and change: "out \<noteq> text"
    and fresh: "\<forall>k \<in> set keys. k \<notin> set chain"
  shows "((st1, chain @ keys, out), (st, chain, text))
           \<in> inv_image (less_than <*lex*> less_than) translate_measure"
proof -
  from scan_lookup [OF s] have D: "defined_names st1 = defined_names st"
    by (simp add: defined_names_def)
  from change s have keys: "keys \<noteq> []"
    using scan_no_keys by blast
  show ?thesis
  proof (cases "\<forall>k \<in> set keys. lookup st k = []")
    case True
    then have "defined_names st - set (chain @ keys) = defined_names st - set chain"
      by (auto simp: defined_names_def)
    moreover from scan_shrinks [OF s True] keys have "length out < length text" by simp
    ultimately show ?thesis by (simp add: translate_measure_def D)
  next
    case False
    then obtain k where k: "k \<in> set keys" "lookup st k \<noteq> []" by blast
    with fresh have "k \<in> defined_names st - set chain" "k \<notin> defined_names st - set (chain @ keys)"
      by (auto simp: defined_names_def)
    then have "defined_names st - set (chain @ keys) \<subset> defined_names st - set chain"
      by auto
    then have "card (defined_names st - set (chain @ keys)) < card (defined_names st - set chain)"
      by (intro psubset_card_mono) (simp_all add: finite_defined_names)
    then show ?thesis by (simp add: translate_measure_def D)
  qed
qed

lemma translate_chain_total:
  "\<exists>out st'. translate_chain st chain text = Some (out, st') \<and> lookup st' = lookup st \<and>
     (\<forall>st2. lookup st2 = lookup st \<longrightarrow> (\<exists>st2'. translate_chain st2 chain text = Some (out, st2')))"
proof -
  define x where "x = (st, chain, text)"
  have "wf (inv_image (less_than <*lex*> less_than) translate_measure)"
    by (intro wf_inv_image wf_lex_prod wf_less_than)
  then have "\<forall>st chain text. x = (st, chain, text) \<longrightarrow>
     (\<exists>out st'. translate_chain st chain text = Some (out, st') \<and> lookup st' = lookup st \<and>
     (\<forall>st2. lookup st2 = lookup st \<longrightarrow> (\<exists>st2'. translate_chain st2 chain text = Some (out, st2'))))"
  proof (induction x rule: wf_induct_rule)
    case (less x)
    show ?case
    proof (intro allI impI)
      fix st chain "text"
      assume x: "x = (st, chain, text)"
      obtain o1 s1 keys where s: "scan st text = (o1, s1, keys)"
        by (cases "scan st text")
      have other: "\<exists>s2. scan st2 text = (o1, s2, keys) \<and> lookup s2 = lookup st"
        if "lookup st2 = lookup st" for st2
      proof -
        obtain o2 s2 k2 where s2: "scan st2 text = (o2, s2, k2)" by (cases "scan st2 text")
        from scan_cong [OF that, of "text"] s s2 have "o2 = o1" "k2 = keys" by simp_all
        with s2 scan_lookup [OF s2] that show ?thesis by simp
      qed
      show "\<exists>out st'. translate_chain st chain text = Some (out, st') \<and> lookup st' = lookup st \<and>
         (\<forall>st2. lookup st2 = lookup st \<longrightarrow> (\<exists>st2'. translate_chain st2 chain text = Some (out, st2')))"
      proof (cases "o1 = text \<or> (\<exists>k \<in> set keys. k \<in> set chain)")
        case True
        with s have "translate_chain st chain text = Some (o1, s1)"
          by (subst translate_chain.simps) simp
        moreover have "\<exists>st2'. translate_chain st2 chain text = Some (o1, st2')"
          if "lookup st2 = lookup st" for st2
        proof -
          from other [OF that] obtain s2 where "scan st2 text = (o1, s2, keys)" by blast
          with True show ?thesis by (subst translate_chain.simps) simp
        qed
        ultimately show ?thesis using scan_lookup [OF s] by blast
      next
        case False
        then have "((s1, chain @ keys, o1), x) \<in> inv_image (less_than <*lex*> less_than) translate_measure"
          unfolding x by (intro translate_step_smaller [OF s]) auto
        from less.IH [OF this, rule_format, OF refl]
        obtain out st' where r: "translate_chain s1 (chain @ keys) o1 = Some (out, st')"
          "lookup st' = lookup s1"
          "\<And>st2. lookup st2 = lookup s1 \<Longrightarrow> \<exists>st2'. translate_chain st2 (chain @ keys) o1 = Some (out, st2')"
          by blast
        from s False r(1) have "translate_chain st chain text = Some (out, st')"
          by (subst translate_chain.simps) simp
        moreover have "\<exists>st2'. translate_chain st2 chain text = Some (out, st2')"
          if "lookup st2 = lookup st" for st2
        proof -
          from other [OF that] obtain s2 where s2: "scan st2 text = (o1, s2, keys)" "lookup s2 = lookup st"
            by blast
          with scan_lookup [OF s] have "lookup s2 = lookup s1" by simp
          from r(3) [OF this] obtain st2' where "translate_chain s2 (chain @ keys) o1 = Some (out, st2')" ..
          with s2 False show ?thesis by (subst translate_chain.simps) simp
        qed
        ultimately show ?thesis using r(2) scan_lookup [OF s] by auto
      qed
    qed
  qed
  then show ?thesis by (simp add: x_def)
qed

lemma split_segments_no_separator:
  "\<forall>c \<in> set cs. \<not> is_sep c \<Longrightarrow>
   split_segments is_sep seg cs = (if seg @ cs = [] then [] else [seg @ cs])"
  by (induction cs arbitrary: seg) auto

lemma reference_key_identifier:
  assumes "list_all is_identifier_char name"
  shows "reference_key name = name"
proof -
  from assms have t: "takeWhile is_identifier_char name = name"
    by (simp add: list_all_iff)
  from assms have "\<forall>c \<in> set name. c \<noteq> CHR ''$''"
    by (auto simp: list_all_iff is_identifier_char_def)
  then have "split_segments (\<lambda>x. x = CHR ''$'' \<or> (CHR 0x00 \<noteq> CHR 0x00 \<and> x = CHR 0x00)) [] name
      = (if name = [] then [] else [name])"
    by (subst split_segments_no_separator) auto
  then show ?thesis
    by (simp add: reference_key_def extract_segments_def t)
qed

lemma scan_reference:
  assumes "list_all is_identifier_char name"
  shows "scan st (CHR ''$'' # name) = (lookup st name, snd (locate st name), [name])"
proof -
  from assms have d: "dropWhile is_identifier_char name = []"
    by (simp add: list_all_iff)
  show ?thesis
    using fst_locate [of st name]
    by (simp add: reference_key_identifier [OF assms] d case_prod_beta)
qed

text \<open>
  Claim C2. For every store, guard chain and text, cyclic definitions included, the
  translator returns a string, and running it again on the same text with the store it
  left behind returns the same string. A reference to a variable that is already in the
  guard chain is replaced by the stored value of the variable, unexpanded, and the
  translator returns without a further call.
\<close>

theorem translate_terminates:
  "(\<exists>out st'. translate_chain st chain text = Some (out, st') \<and>
      (\<exists>st''. translate_chain st' chain text = Some (out, st''))) \<and>
   (name \<in> set chain \<and> list_all is_identifier_char name \<longrightarrow>
      translate_chain st chain (CHR ''$'' # name) = Some (lookup st name, snd (locate st name)))"
proof -
  from translate_chain_total [of st chain "text"]
  have "\<exists>out st'. translate_chain st chain text = Some (out, st') \<and>
      (\<exists>st''. translate_chain st' chain text = Some (out, st''))"
    by metis
  moreover have "translate_chain st chain (CHR ''$'' # name) = Some (lookup st name, snd (locate st name))"
    if "name \<in> set chain" "list_all is_identifier_char name"
    using that by (subst translate_chain.simps) (simp add: scan_reference del: scan.simps)
  ultimately show ?thesis by blast
qed

text \<open>
  An instance: the cyclic pair \<open>a = $b\<close>, \<open>b = $a\<close>. Translating \<open>$a\<close> takes
  three passes and returns \<open>$b\<close>, the stored value of \<open>a\<close>.
\<close>

theorem translate_terminates_witness:
  "translate [(''a'', ''$b''), (''b'', ''$a'')] ''$a'' = Some (''$b'', [(''a'', ''$b''), (''b'', ''$a'')]) \<and>
   ''a'' \<in> set [''a'', ''b''] \<and> list_all is_identifier_char ''a'' \<and>
   translate_chain [(''a'', ''$b''), (''b'', ''$a'')] [''a'', ''b''] ''$a'' =
     Some (''$b'', [(''a'', ''$b''), (''b'', ''$a'')])"
proof -
  have id: "list_all is_identifier_char ''a''" "list_all is_identifier_char ''b''"
    by (simp_all add: is_identifier_char_def)
  have 3: "translate_chain [(''a'', ''$b''), (''b'', ''$a'')] [''a'', ''b''] ''$a'' =
     Some (''$b'', [(''a'', ''$b''), (''b'', ''$a'')])"
    using translate_terminates [of "[(''a'', ''$b''), (''b'', ''$a'')]" "[''a'', ''b'']" "''$a''" "''a''"] id
    by (simp add: lookup_def locate_def)
  have 2: "translate_chain [(''a'', ''$b''), (''b'', ''$a'')] [''a''] ''$b'' =
     Some (''$b'', [(''a'', ''$b''), (''b'', ''$a'')])"
    using 3 by (subst translate_chain.simps) (simp add: scan_reference [OF id(2)] lookup_def locate_def del: scan.simps)
  have 1: "translate_chain [(''a'', ''$b''), (''b'', ''$a'')] [] ''$a'' =
     Some (''$b'', [(''a'', ''$b''), (''b'', ''$a'')])"
    using 2 by (subst translate_chain.simps) (simp add: scan_reference [OF id(1)] lookup_def locate_def del: scan.simps)
  from 1 3 id show ?thesis by (simp add: translate_def)
qed

text \<open>
  The examples of section 8 of the specification, the self-referential definition, and a
  text with nested definitions.
\<close>

lemma translate_examples:
  "translate [(''a'', ''5'')] ''$a'' = Some (''5'', [(''a'', ''5'')])"
  "translate [] ''$a'' = Some ([], [(''a'', [])])"
  "translate [(''a'', ''$b''), (''b'', ''$a'')] ''$a'' = Some (''$b'', [(''a'', ''$b''), (''b'', ''$a'')])"
  "translate [(''a'', ''$a'')] ''$a'' = Some (''$a'', [(''a'', ''$a'')])"
  "translate [(''user'', ''$first $last''), (''first'', ''Ada''), (''last'', ''L.'')] ''Hi, $user!''
     = Some (''Hi, Ada L.!'', [(''user'', ''$first $last''), (''first'', ''Ada''), (''last'', ''L.'')])"
  by code_simp+

section \<open>\<open>wire::eval\<close>\<close>

text \<open>
  Modelled from the spec: \<open>wire.hpp\<close> only declares \<open>eval\<close>; its body is not in the
  source. The definitions of this section follow sections 3 and 4.6 of the
  specification: the tokens, the grammar, and a recursive-descent parser that evaluates
  as it parses, with one token of lookahead.

  Double-precision arithmetic is not modelled. A result is either the not-a-number
  sentinel or a number of a type \<open>'v\<close> that stands for the other doubles, the
  infinities among them; the operations on results, and the conversion of the text of a
  literal, are parameters of the evaluator. \<open>double_eq\<close> is the comparison \<open>==\<close>,
  false whenever an operand is the sentinel.
\<close>

datatype token =
  TNumber string | TPlus | TMinus | TTimes | TDivide | TPower | TLParen | TRParen
  | TUnexpected char | TEnd

datatype 'v double = Num 'v | NaN

fun double_eq :: "'v double \<Rightarrow> 'v double \<Rightarrow> bool" where
  "double_eq (Num a) (Num b) = (a = b)"
| "double_eq _ _ = False"

record 'v arithmetic =
  literal :: "string \<Rightarrow> 'v double"
  add :: "'v double \<Rightarrow> 'v double \<Rightarrow> 'v double"
  subtract :: "'v double \<Rightarrow> 'v double \<Rightarrow> 'v double"
  multiply :: "'v double \<Rightarrow> 'v double \<Rightarrow> 'v double"
  divide :: "'v double \<Rightarrow> 'v double \<Rightarrow> 'v double"
  power :: "'v double \<Rightarrow> 'v double \<Rightarrow> 'v double"
  negate :: "'v double \<Rightarrow> 'v double"

text \<open>
  The tokens of a string: a number literal is a run of decimal digits, optionally
  followed by a fraction and by an exponent; its sign, when it has one, is a token of its
  own. The operators and the parentheses are one character each; the end of the input is
  the token \<open>TEnd\<close>. The specification names no other token: any other character is kept
  as \<open>TUnexpected\<close>, which no rule of the grammar accepts.
\<close>

definition lex_digits :: "string \<Rightarrow> string \<times> string" where
  "lex_digits s = (takeWhile isdigit s, dropWhile isdigit s)"

definition lex_fraction :: "string \<Rightarrow> string \<times> string" where
  "lex_fraction s =
     (case s of
        c # cs \<Rightarrow> if c = CHR ''.'' then (c # takeWhile isdigit cs, dropWhile isdigit cs) else ([], s)
      | [] \<Rightarrow> ([], s))"

definition lex_exponent :: "string \<Rightarrow> string \<times> string" where
  "lex_exponent s =
     (case s of
        e # cs \<Rightarrow>
          if e = CHR ''e'' \<or> e = CHR ''E'' then
            (case cs of
               d # ds \<Rightarrow>
                 if isdigit d then (e # takeWhile isdigit cs, dropWhile isdigit cs)
                 else if (d = CHR ''+'' \<or> d = CHR ''-'') \<and> ds \<noteq> [] \<and> isdigit (hd ds)
                   then (e # d # takeWhile isdigit ds, dropWhile isdigit ds)
                 else ([], s)
             | [] \<Rightarrow> ([], s))
          else ([], s)
      | [] \<Rightarrow> ([], s))"

definition lex_number :: "string \<Rightarrow> string \<times> string" where
  "lex_number s =
     (case lex_digits s of (ds, r1) \<Rightarrow>
        case lex_fraction r1 of (fs, r2) \<Rightarrow>
          case lex_exponent r2 of (es, r3) \<Rightarrow> (ds @ fs @ es, r3))"

lemma lex_fraction_length: "length (snd (lex_fraction s)) \<le> length s"
  using length_dropWhile_le [of isdigit "tl s"]
  by (auto simp: lex_fraction_def split: list.splits)

lemma lex_exponent_length: "length (snd (lex_exponent s)) \<le> length s"
  by (auto simp: lex_exponent_def le_SucI length_dropWhile_le split: list.splits)

lemma lex_number_length: "isdigit c \<Longrightarrow> length (snd (lex_number (c # cs))) \<le> length cs"
proof -
  assume c: "isdigit c"
  then have "length (snd (lex_digits (c # cs))) \<le> length cs"
    by (simp add: lex_digits_def length_dropWhile_le)
  then show ?thesis
    using lex_fraction_length [of "snd (lex_digits (c # cs))"]
      lex_exponent_length [of "snd (lex_fraction (snd (lex_digits (c # cs))))"]
    by (simp add: lex_number_def case_prod_beta)
qed

function tokens :: "string \<Rightarrow> token list" where
  \<comment> \<open>Modelled from the spec: section 3, the expression tokens of eval.\<close>
  "tokens [] = [TEnd]"
| "tokens (c # cs) =
     (if isdigit c then TNumber (fst (lex_number (c # cs))) # tokens (snd (lex_number (c # cs)))
      else if c = CHR ''+'' then TPlus # tokens cs
      else if c = CHR ''-'' then TMinus # tokens cs
      else if c = CHR ''*'' then TTimes # tokens cs
      else if c = CHR ''/'' then TDivide # tokens cs
      else if c = CHR ''^'' then TPower # tokens cs
      else if c = CHR ''('' then TLParen # tokens cs
      else if c = CHR '')'' then TRParen # tokens cs
      else TUnexpected c # tokens cs)"
  by pat_completeness auto
termination
  by (relation "measure length") (auto simp: lex_number_length less_Suc_eq_le)

text \<open>
  The parser. Each level calls the next-higher level for its operands and then loops over
  the operators of its own precedence: \<open>+\<close> and \<open>-\<close> (left-associative), then \<open>*\<close>
  and \<open>/\<close> (left-associative), then \<open>^\<close> (right-associative), then unary \<open>-\<close>,
  then the operands: a literal, optionally signed, or a parenthesised expression. A call
  is \<open>Parse l\<close>, which parses an expression of level \<open>l\<close>, or \<open>Loop l acc\<close>, the
  loop of level \<open>l\<close> with the value \<open>acc\<close> of the operands read so far. A call returns
  a syntax error, or a value and the tokens left.

  The recursion is on a fuel argument that bounds the depth of the calls: \<open>None\<close> is
  out of fuel. \<open>eval\<close> gives the parser six units of fuel per token and five more;
  that this is enough on every input is part of the theorem below.
\<close>

datatype syntax_error = unexpected_token | unbalanced_parenthesis

datatype level = Sum | Product | Exponent | Unary | Atom

datatype 'v call = Parse level | Loop level "'v double"

type_synonym 'v parsed = "(syntax_error + 'v double \<times> token list) option"

fun and_then :: "'v parsed \<Rightarrow> ('v double \<Rightarrow> token list \<Rightarrow> 'v parsed) \<Rightarrow> 'v parsed" where
  "and_then None k = None"
| "and_then (Some (Inl e)) k = Some (Inl e)"
| "and_then (Some (Inr (v, rest))) k = k v rest"

fun binary_operator ::
  "'v arithmetic \<Rightarrow> level \<Rightarrow> token \<Rightarrow> ('v double \<Rightarrow> 'v double \<Rightarrow> 'v double) option" where
  "binary_operator ar Sum TPlus = Some (add ar)"
| "binary_operator ar Sum TMinus = Some (subtract ar)"
| "binary_operator ar Product TTimes = Some (multiply ar)"
| "binary_operator ar Product TDivide = Some (divide ar)"
| "binary_operator ar _ _ = None"

fun operand_level :: "level \<Rightarrow> level" where
  "operand_level Sum = Product"
| "operand_level _ = Exponent"

fun parse :: "nat \<Rightarrow> 'v arithmetic \<Rightarrow> 'v call \<Rightarrow> token list \<Rightarrow> 'v parsed" where
  \<comment> \<open>Modelled from the spec: section 4.6, the precedence levels of eval, parsed with one token of lookahead.\<close>
  "parse 0 ar call ts = None"
| "parse (Suc n) ar (Parse Sum) ts =
     and_then (parse n ar (Parse Product) ts) (\<lambda>v rest. parse n ar (Loop Sum v) rest)"
| "parse (Suc n) ar (Parse Product) ts =
     and_then (parse n ar (Parse Exponent) ts) (\<lambda>v rest. parse n ar (Loop Product v) rest)"
| "parse (Suc n) ar (Loop l acc) ts =
     (case ts of
        [] \<Rightarrow> Some (Inr (acc, ts))
      | t # ts' \<Rightarrow>
          (case binary_operator ar l t of
             None \<Rightarrow> Some (Inr (acc, ts))
           | Some f \<Rightarrow>
               and_then (parse n ar (Parse (operand_level l)) ts')
                 (\<lambda>v rest. parse n ar (Loop l (f acc v)) rest)))"
| "parse (Suc n) ar (Parse Exponent) ts =
     and_then (parse n ar (Parse Unary) ts)
       (\<lambda>base rest.
          case rest of
            TPower # rest' \<Rightarrow>
              and_then (parse n ar (Parse Exponent) rest')
                (\<lambda>ex rest''. Some (Inr (power ar base ex, rest'')))
          | _ \<Rightarrow> Some (Inr (base, rest)))"
| "parse (Suc n) ar (Parse Unary) ts =
     (case ts of
        TMinus # ts' \<Rightarrow>
          and_then (parse n ar (Parse Unary) ts') (\<lambda>v rest. Some (Inr (negate ar v, rest)))
      | _ \<Rightarrow> parse n ar (Parse Atom) ts)"
| "parse (Suc n) ar (Parse Atom) ts =
     (case ts of
        TNumber s # ts' \<Rightarrow> Some (Inr (literal ar s, ts'))
      | TPlus # TNumber s # ts' \<Rightarrow> Some (Inr (literal ar (CHR ''+'' # s), ts'))
      | TLParen # ts' \<Rightarrow>
          and_then (parse n ar (Parse Sum) ts')
            (\<lambda>v rest.
               case rest of
                 TRParen # rest' \<Rightarrow> Some (Inr (v, rest'))
               | _ \<Rightarrow> Some (Inl unbalanced_parenthesis))
      | _ \<Rightarrow> Some (Inl unexpected_token))"

definition eval :: "'v arithmetic \<Rightarrow> string \<Rightarrow> 'v double option" where
  \<comment> \<open>Modelled from the spec: section 4.6, eval(expression_text): a syntax error or tokens left before the end of the input give the not-a-number sentinel.\<close>
  "eval ar expression =
     (let ts = tokens expression in
      map_option
        (\<lambda>r. case r of
                Inl e \<Rightarrow> NaN
              | Inr (v, rest) \<Rightarrow> if rest = [TEnd] then v else NaN)
        (parse (6 * length ts + 5) ar (Parse Sum) ts))"

text \<open>
  The grammar of section 4.6 on its own, as the phrases each level derives; a string is
  well formed when its tokens are a phrase of the lowest level followed by the end of the
  input. A malformed expression is one that is not well formed: it has an unexpected
  token, an unbalanced parenthesis, or tokens after a complete expression.
\<close>

inductive derives :: "level \<Rightarrow> token list \<Rightarrow> bool" where
  \<comment> \<open>Modelled from the spec: section 4.6, the grammar of eval.\<close>
  number: "derives Atom [TNumber s]"
| signed_number: "derives Atom [TPlus, TNumber s]"
| parenthesised: "derives Sum e \<Longrightarrow> derives Atom (TLParen # e @ [TRParen])"
| atom: "derives Atom e \<Longrightarrow> derives Unary e"
| minus: "derives Unary e \<Longrightarrow> derives Unary (TMinus # e)"
| unary: "derives Unary e \<Longrightarrow> derives Exponent e"
| raised: "derives Unary b \<Longrightarrow> derives Exponent x \<Longrightarrow> derives Exponent (b @ TPower # x)"
| exponent: "derives Exponent e \<Longrightarrow> derives Product e"
| times: "derives Product a \<Longrightarrow> derives Exponent b \<Longrightarrow> derives Product (a @ TTimes # b)"
| divided: "derives Product a \<Longrightarrow> derives Exponent b \<Longrightarrow> derives Product (a @ TDivide # b)"
| product: "derives Product e \<Longrightarrow> derives Sum e"
| plus: "derives Sum a \<Longrightarrow> derives Product b \<Longrightarrow> derives Sum (a @ TPlus # b)"
| less: "derives Sum a \<Longrightarrow> derives Product b \<Longrightarrow> derives Sum (a @ TMinus # b)"

definition well_formed :: "token list \<Rightarrow> bool" where
  "well_formed ts = (\<exists>e. derives Sum e \<and> ts = e @ [TEnd])"

subsection \<open>What the parser accepts is a phrase of the grammar\<close>

lemma and_then_Inr:
  "and_then x k = Some (Inr r) \<longleftrightarrow> (\<exists>v rest. x = Some (Inr (v, rest)) \<and> k v rest = Some (Inr r))"
  by (cases "(x, k)" rule: and_then.cases) auto

lemma derives_binary:
  "binary_operator ar l t = Some f \<Longrightarrow> derives l a \<Longrightarrow> derives (operand_level l) b \<Longrightarrow>
   derives l (a @ t # b)"
  by (cases "(ar, l, t)" rule: binary_operator.cases) (auto intro: derives.intros)

definition sound :: "'v call \<Rightarrow> token list \<Rightarrow> token list \<Rightarrow> bool" where
  "sound c ts rest =
     (case c of
        Parse l \<Rightarrow> \<exists>e. derives l e \<and> ts = e @ rest
      | Loop l acc \<Rightarrow> \<exists>e. (\<forall>a. derives l a \<longrightarrow> derives l (a @ e)) \<and> ts = e @ rest)"

lemma sound_Parse: "sound (Parse l) ts rest \<longleftrightarrow> (\<exists>e. derives l e \<and> ts = e @ rest)"
  by (simp add: sound_def)

lemma sound_Loop:
  "sound (Loop l acc) ts rest \<longleftrightarrow> (\<exists>e. (\<forall>a. derives l a \<longrightarrow> derives l (a @ e)) \<and> ts = e @ rest)"
  by (simp add: sound_def)

lemma parse_sound:
  "parse n ar c ts = Some (Inr (v, rest)) \<Longrightarrow> sound c ts rest"
proof (induction n arbitrary: c ts v rest)
  case 0
  then show ?case by simp
next
  case (Suc n)
  note IH = Suc.IH
  show ?case
  proof (cases c)
    case (Loop l acc)
    show ?thesis
    proof (cases ts)
      case Nil
      with Suc.prems Loop show ?thesis by (auto simp: sound_Loop)
    next
      case (Cons t ts')
      show ?thesis
      proof (cases "binary_operator ar l t")
        case None
        with Suc.prems Loop Cons show ?thesis by (auto simp: sound_Loop)
      next
        case (Some f)
        with Suc.prems Loop Cons obtain v1 rest1 where
          1: "parse n ar (Parse (operand_level l)) ts' = Some (Inr (v1, rest1))" and
          2: "parse n ar (Loop l (f acc v1)) rest1 = Some (Inr (v, rest))"
          by (auto simp: and_then_Inr)
        from IH [OF 1] obtain e1 where e1: "derives (operand_level l) e1" "ts' = e1 @ rest1"
          by (auto simp: sound_Parse)
        from IH [OF 2] obtain e2 where e2: "\<forall>a. derives l a \<longrightarrow> derives l (a @ e2)" "rest1 = e2 @ rest"
          by (auto simp: sound_Loop)
        have "\<forall>a. derives l a \<longrightarrow> derives l (a @ (t # e1 @ e2))"
        proof (intro allI impI)
          fix a assume "derives l a"
          from derives_binary [OF Some this e1(1)] e2(1) have "derives l ((a @ t # e1) @ e2)" by blast
          then show "derives l (a @ (t # e1 @ e2))" by simp
        qed
        moreover have "ts = (t # e1 @ e2) @ rest" using Cons e1 e2 by simp
        ultimately show ?thesis unfolding Loop sound_Loop by blast
      qed
    qed
  next
    case (Parse l)
    show ?thesis
    proof (cases l)
      case Sum
      with Suc.prems Parse obtain v1 rest1 where
        1: "parse n ar (Parse Product) ts = Some (Inr (v1, rest1))" and
        2: "parse n ar (Loop Sum v1) rest1 = Some (Inr (v, rest))"
        by (auto simp: and_then_Inr)
      from IH [OF 1] obtain e1 where e1: "derives Product e1" "ts = e1 @ rest1"
        by (auto simp: sound_Parse)
      from IH [OF 2] obtain e2 where e2: "\<forall>a. derives Sum a \<longrightarrow> derives Sum (a @ e2)" "rest1 = e2 @ rest"
        by (auto simp: sound_Loop)
      from e1(1) e2(1) have "derives Sum (e1 @ e2)" by (blast intro: derives.product)
      with e1 e2 show ?thesis unfolding Parse Sum sound_Parse by auto
    next
      case Product
      with Suc.prems Parse obtain v1 rest1 where
        1: "parse n ar (Parse Exponent) ts = Some (Inr (v1, rest1))" and
        2: "parse n ar (Loop Product v1) rest1 = Some (Inr (v, rest))"
        by (auto simp: and_then_Inr)
      from IH [OF 1] obtain e1 where e1: "derives Exponent e1" "ts = e1 @ rest1"
        by (auto simp: sound_Parse)
      from IH [OF 2] obtain e2 where e2: "\<forall>a. derives Product a \<longrightarrow> derives Product (a @ e2)" "rest1 = e2 @ rest"
        by (auto simp: sound_Loop)
      from e1(1) e2(1) have "derives Product (e1 @ e2)" by (blast intro: derives.exponent)
      with e1 e2 show ?thesis unfolding Parse Product sound_Parse by auto
    next
      case Exponent
      with Suc.prems Parse obtain base rest1 where
        1: "parse n ar (Parse Unary) ts = Some (Inr (base, rest1))" and
        2: "(case rest1 of
            TPower # rest' \<Rightarrow>
              and_then (parse n ar (Parse Exponent) rest')
                (\<lambda>ex rest''. Some (Inr (power ar base ex, rest'')))
          | _ \<Rightarrow> Some (Inr (base, rest1))) = Some (Inr (v, rest))"
        by (auto simp: and_then_Inr)
      from IH [OF 1] obtain e1 where e1: "derives Unary e1" "ts = e1 @ rest1"
        by (auto simp: sound_Parse)
      show ?thesis
      proof (cases "\<exists>rest'. rest1 = TPower # rest'")
        case True
        then obtain rest' where r: "rest1 = TPower # rest'" by blast
        with 2 obtain ex where 3: "parse n ar (Parse Exponent) rest' = Some (Inr (ex, rest))"
          by (auto simp: and_then_Inr)
        from IH [OF 3] obtain e2 where e2: "derives Exponent e2" "rest' = e2 @ rest"
          by (auto simp: sound_Parse)
        from e1(1) e2(1) have "derives Exponent (e1 @ TPower # e2)" by (rule derives.raised)
        with e1 e2 r show ?thesis unfolding Parse Exponent sound_Parse by auto
      next
        case False
        with 2 have "rest = rest1"
          by (auto split: list.splits token.splits)
        with e1 show ?thesis unfolding Parse Exponent sound_Parse by (auto intro: derives.unary)
      qed
    next
      case Unary
      show ?thesis
      proof (cases "\<exists>ts'. ts = TMinus # ts'")
        case True
        then obtain ts' where t: "ts = TMinus # ts'" by blast
        with Suc.prems Parse Unary obtain v1 where
          1: "parse n ar (Parse Unary) ts' = Some (Inr (v1, rest))"
          by (auto simp: and_then_Inr)
        from IH [OF 1] obtain e1 where e1: "derives Unary e1" "ts' = e1 @ rest"
          by (auto simp: sound_Parse)
        with t show ?thesis unfolding Parse Unary sound_Parse
          by (auto intro!: exI [of _ "TMinus # e1"] derives.minus)
      next
        case False
        with Suc.prems Parse Unary have 1: "parse n ar (Parse Atom) ts = Some (Inr (v, rest))"
          by (auto split: list.splits token.splits)
        from IH [OF 1] show ?thesis unfolding Parse Unary sound_Parse
          by (auto intro: derives.atom)
      qed
    next
      case Atom
      from Suc.prems Parse Atom have A: "parse (Suc n) ar (Parse Atom) ts = Some (Inr (v, rest))"
        by simp
      show ?thesis
      proof (cases ts)
        case Nil
        with A show ?thesis by simp
      next
        case (Cons t ts')
        show ?thesis
        proof (cases t)
          case (TNumber s)
          with A Cons have "ts = [TNumber s] @ rest" by simp
          then show ?thesis unfolding Parse Atom sound_Parse
            using derives.number by blast
        next
          case TPlus
          with A Cons obtain s where "ts = [TPlus, TNumber s] @ rest"
            by (auto split: list.splits token.splits)
          then show ?thesis unfolding Parse Atom sound_Parse
            using derives.signed_number by blast
        next
          case TLParen
          with A Cons obtain v1 rest1 where
            1: "parse n ar (Parse Sum) ts' = Some (Inr (v1, rest1))" and
            2: "(case rest1 of
                   TRParen # rest' \<Rightarrow> Some (Inr (v1, rest'))
                 | _ \<Rightarrow> Some (Inl unbalanced_parenthesis)) = Some (Inr (v, rest))"
            by (auto simp: and_then_Inr)
          from 2 have r: "rest1 = TRParen # rest"
            by (auto split: list.splits token.splits)
          from IH [OF 1] obtain e1 where e1: "derives Sum e1" "ts' = e1 @ rest1"
            by (auto simp: sound_Parse)
          from e1(1) have "derives Atom (TLParen # e1 @ [TRParen])" by (rule derives.parenthesised)
          moreover from Cons TLParen e1(2) r have "ts = (TLParen # e1 @ [TRParen]) @ rest" by simp
          ultimately show ?thesis unfolding Parse Atom sound_Parse by blast
        qed (use A Cons in simp_all)
      qed
    qed
  qed
qed

lemma derives_nonempty: "derives l e \<Longrightarrow> e \<noteq> []"
  by (induction rule: derives.induct) auto

fun closes_operand :: "token \<Rightarrow> bool" where
  "closes_operand (TNumber s) = True"
| "closes_operand TRParen = True"
| "closes_operand _ = False"

lemma derives_last: "derives l e \<Longrightarrow> closes_operand (last e)"
  by (induction rule: derives.induct) (auto simp: derives_nonempty)

lemma parse_consumes:
  assumes "parse n ar (Parse l) ts = Some (Inr (v, rest))"
  shows "length rest < length ts"
proof -
  from parse_sound [OF assms] obtain e where "derives l e" "ts = e @ rest"
    by (auto simp: sound_Parse)
  with derives_nonempty [of l e] show ?thesis by simp
qed

subsection \<open>The fuel is enough\<close>

fun level_rank :: "level \<Rightarrow> nat" where
  "level_rank Sum = 5"
| "level_rank Product = 4"
| "level_rank Exponent = 3"
| "level_rank Unary = 2"
| "level_rank Atom = 1"

fun rank :: "'v call \<Rightarrow> nat" where
  "rank (Parse l) = level_rank l"
| "rank (Loop l acc) = 1"

lemma rank_operand: "level_rank (operand_level l) \<le> 4"
  by (cases l) simp_all

lemma rank_positive: "0 < rank c"
proof (cases c)
  case (Parse l)
  then show ?thesis by (cases l) simp_all
qed simp

lemma and_then_returns:
  assumes "x \<noteq> None" and "\<And>v rest. x = Some (Inr (v, rest)) \<Longrightarrow> k v rest \<noteq> None"
  shows "and_then x k \<noteq> None"
  using assms by (cases "(x, k)" rule: and_then.cases) auto

lemma parse_returns:
  "6 * length ts + rank c \<le> n \<Longrightarrow> parse n ar c ts \<noteq> None"
proof (induction n arbitrary: c ts)
  case 0
  with rank_positive [of c] show ?case by simp
next
  case (Suc n)
  note IH = Suc.IH
  show ?case
  proof (cases c rule: rank.cases)
    case (1 l)
    show ?thesis
    proof (cases l)
      case Sum
      with 1 have c1: "c = Parse Sum" by simp
      have "and_then (parse n ar (Parse Product) ts) (\<lambda>v rest. parse n ar (Loop Sum v) rest) \<noteq> None"
      proof (rule and_then_returns)
        show "parse n ar (Parse Product) ts \<noteq> None"
          using Suc.prems c1 by (intro IH) simp
      next
        fix v rest assume "parse n ar (Parse Product) ts = Some (Inr (v, rest))"
        from parse_consumes [OF this] Suc.prems c1 show "parse n ar (Loop Sum v) rest \<noteq> None"
          by (intro IH) simp
      qed
      with c1 show ?thesis by simp
    next
      case Product
      with 1 have c2: "c = Parse Product" by simp
      have "and_then (parse n ar (Parse Exponent) ts) (\<lambda>v rest. parse n ar (Loop Product v) rest) \<noteq> None"
      proof (rule and_then_returns)
        show "parse n ar (Parse Exponent) ts \<noteq> None"
          using Suc.prems c2 by (intro IH) simp
      next
        fix v rest assume "parse n ar (Parse Exponent) ts = Some (Inr (v, rest))"
        from parse_consumes [OF this] Suc.prems c2 show "parse n ar (Loop Product v) rest \<noteq> None"
          by (intro IH) simp
      qed
      with c2 show ?thesis by simp
    next
      case Exponent
      with 1 have c3: "c = Parse Exponent" by simp
      have "and_then (parse n ar (Parse Unary) ts)
         (\<lambda>base rest.
            case rest of
              TPower # rest' \<Rightarrow>
                and_then (parse n ar (Parse Exponent) rest')
                  (\<lambda>ex rest''. Some (Inr (power ar base ex, rest'')))
            | _ \<Rightarrow> Some (Inr (base, rest))) \<noteq> None"
      proof (rule and_then_returns)
        show "parse n ar (Parse Unary) ts \<noteq> None"
          using Suc.prems c3 by (intro IH) simp
      next
        fix base rest assume "parse n ar (Parse Unary) ts = Some (Inr (base, rest))"
        from parse_consumes [OF this] have shorter: "length rest < length ts" .
        have "and_then (parse n ar (Parse Exponent) rest')
                  (\<lambda>ex rest''. Some (Inr (power ar base ex, rest''))) \<noteq> None"
          if "rest = TPower # rest'" for rest'
        proof (rule and_then_returns)
          show "parse n ar (Parse Exponent) rest' \<noteq> None"
            using Suc.prems c3 shorter that by (intro IH) simp
        qed simp
        then show "(case rest of
              TPower # rest' \<Rightarrow>
                and_then (parse n ar (Parse Exponent) rest')
                  (\<lambda>ex rest''. Some (Inr (power ar base ex, rest'')))
            | _ \<Rightarrow> Some (Inr (base, rest))) \<noteq> None"
          by (simp split: list.split token.split)
      qed
      with c3 show ?thesis by simp
    next
      case Unary
      with 1 have c4: "c = Parse Unary" by simp
      have "and_then (parse n ar (Parse Unary) ts') (\<lambda>v rest. Some (Inr (negate ar v, rest))) \<noteq> None"
        if "ts = TMinus # ts'" for ts'
      proof (rule and_then_returns)
        show "parse n ar (Parse Unary) ts' \<noteq> None"
          using Suc.prems c4 that by (intro IH) simp
      qed simp
      moreover have "parse n ar (Parse Atom) ts \<noteq> None"
        using Suc.prems c4 by (intro IH) simp
      ultimately show ?thesis
        using c4 by (auto split: list.split token.split)
    next
      case Atom
      with 1 have c5: "c = Parse Atom" by simp
      have "and_then (parse n ar (Parse Sum) ts')
              (\<lambda>v rest.
                 case rest of
                   TRParen # rest' \<Rightarrow> Some (Inr (v, rest'))
                 | _ \<Rightarrow> Some (Inl unbalanced_parenthesis)) \<noteq> None"
        if "ts = TLParen # ts'" for ts'
      proof (rule and_then_returns)
        show "parse n ar (Parse Sum) ts' \<noteq> None"
          using Suc.prems c5 that by (intro IH) simp
      qed (simp split: list.split token.split)
      then show ?thesis
        using c5 by (auto split: list.split token.split)
    qed
  next
    case (2 l acc)
    have "and_then (parse n ar (Parse (operand_level l)) ts')
                 (\<lambda>v rest. parse n ar (Loop l (f acc v)) rest) \<noteq> None"
      if "ts = t # ts'" for t ts' f
    proof (rule and_then_returns)
      from Suc.prems 2 that have "6 * length ts' + 6 \<le> n" by simp
      with rank_operand [of l] have "6 * length ts' + level_rank (operand_level l) \<le> n"
        by linarith
      then show "parse n ar (Parse (operand_level l)) ts' \<noteq> None"
        by (intro IH) simp
    next
      fix v rest assume "parse n ar (Parse (operand_level l)) ts' = Some (Inr (v, rest))"
      from parse_consumes [OF this] Suc.prems 2 that
      show "parse n ar (Loop l (f acc v)) rest \<noteq> None"
        by (intro IH) simp
    qed
    then show ?thesis
      using 2 by (auto split: list.split option.split)
  qed
qed

subsection \<open>Two kinds of malformed expression\<close>

text \<open>
  A phrase of the grammar holds no unexpected token, and its parentheses are balanced:
  \<open>balanced ts depth\<close> reads the tokens with \<open>depth\<close> parentheses open and holds
  when they never close more than are open and leave none open.
\<close>

fun balanced :: "token list \<Rightarrow> nat \<Rightarrow> bool" where
  "balanced [] depth = (depth = 0)"
| "balanced (TLParen # ts) depth = balanced ts (Suc depth)"
| "balanced (TRParen # ts) depth = (0 < depth \<and> balanced ts (depth - 1))"
| "balanced (t # ts) depth = balanced ts depth"

lemma balanced_operator:
  "t \<noteq> TLParen \<Longrightarrow> t \<noteq> TRParen \<Longrightarrow> balanced (t # ts) depth = balanced ts depth"
  by (cases t) simp_all

lemma derives_balanced: "derives l e \<Longrightarrow> balanced (e @ rest) depth = balanced rest depth"
proof (induction arbitrary: rest depth rule: derives.induct)
  case (parenthesised e)
  from parenthesised.IH [of "TRParen # rest" "Suc depth"] show ?case by simp
qed (simp_all add: balanced_operator)

lemma derives_expected: "derives l e \<Longrightarrow> TUnexpected c \<notin> set e"
  by (induction rule: derives.induct) auto

lemma well_formed_balanced: "well_formed ts \<Longrightarrow> balanced ts 0"
  by (auto simp: well_formed_def derives_balanced)

lemma well_formed_expected: "well_formed ts \<Longrightarrow> TUnexpected c \<notin> set ts"
  by (auto simp: well_formed_def derives_expected)

text \<open>
  Claim C3. \<open>eval\<close> returns a result on every input string, whatever the arithmetic;
  on every malformed expression the result is the not-a-number sentinel, for which
  \<open>result == result\<close> is false. In particular the result is the sentinel when the
  string holds a character that is no token, and when its parentheses are not balanced.
\<close>

theorem eval_malformed_is_nan:
  "(\<exists>r. eval ar expression = Some r) \<and>
   (\<not> well_formed (tokens expression) \<longrightarrow>
      (\<exists>r. eval ar expression = Some r \<and> r = NaN \<and> \<not> double_eq r r)) \<and>
   (TUnexpected c \<in> set (tokens expression) \<longrightarrow> eval ar expression = Some NaN) \<and>
   (\<not> balanced (tokens expression) 0 \<longrightarrow> eval ar expression = Some NaN)"
proof -
  define ts where "ts = tokens expression"
  have "parse (6 * length ts + 5) ar (Parse Sum) ts \<noteq> None"
    by (rule parse_returns) simp
  then obtain p where p: "parse (6 * length ts + 5) ar (Parse Sum) ts = Some p" by blast
  then have total: "\<exists>r. eval ar expression = Some r"
    by (simp add: eval_def ts_def [symmetric])
  have nan: "eval ar expression = Some NaN" if bad: "\<not> well_formed ts"
  proof (cases p)
    case (Inl e)
    with p show ?thesis by (simp add: eval_def ts_def [symmetric])
  next
    case (Inr vr)
    obtain v rest where vr: "vr = (v, rest)" by (cases vr)
    from parse_sound [of _ ar "Parse Sum" ts v rest] p Inr vr
    obtain e where "derives Sum e" "ts = e @ rest" by (auto simp: sound_Parse)
    with bad have "rest \<noteq> [TEnd]" by (auto simp: well_formed_def)
    with p Inr vr show ?thesis by (simp add: eval_def ts_def [symmetric])
  qed
  from nan well_formed_expected [of ts c]
  have "TUnexpected c \<in> set ts \<longrightarrow> eval ar expression = Some NaN" by blast
  moreover from nan well_formed_balanced [of ts]
  have "\<not> balanced ts 0 \<longrightarrow> eval ar expression = Some NaN" by blast
  ultimately show ?thesis using total nan by (simp add: ts_def)
qed

text \<open>
  An arithmetic to run examples with: integers and the two infinities, a division by zero
  giving the infinity of the sign of the dividend. It is no model of floating point.
\<close>

datatype number = Finite int | PosInf | NegInf

fun lift2 :: "(int \<Rightarrow> int \<Rightarrow> int) \<Rightarrow> number double \<Rightarrow> number double \<Rightarrow> number double" where
  "lift2 f (Num (Finite a)) (Num (Finite b)) = Num (Finite (f a b))"
| "lift2 f _ _ = NaN"

fun example_divide :: "number double \<Rightarrow> number double \<Rightarrow> number double" where
  "example_divide (Num (Finite a)) (Num (Finite b)) =
     (if b \<noteq> 0 then Num (Finite (a div b))
      else if 0 < a then Num PosInf else if a < 0 then Num NegInf else NaN)"
| "example_divide _ _ = NaN"

fun example_negate :: "number double \<Rightarrow> number double" where
  "example_negate (Num (Finite a)) = Num (Finite (- a))"
| "example_negate (Num PosInf) = Num NegInf"
| "example_negate (Num NegInf) = Num PosInf"
| "example_negate NaN = NaN"

definition example_arithmetic :: "number arithmetic" where
  "example_arithmetic = \<lparr>
     literal = (\<lambda>s. let ds = (if take 1 s = ''+'' then drop 1 s else s)
                    in if list_all isdigit ds then Num (Finite (digits_value ds)) else NaN),
     add = lift2 (+), subtract = lift2 (-), multiply = lift2 (*),
     divide = example_divide,
     power = lift2 (\<lambda>x y. if 0 \<le> y then x ^ nat y else 0),
     negate = example_negate \<rparr>"

lemma tokens_2_plus: "tokens ''2+'' = [TNumber ''2'', TPlus, TEnd]"
  by (simp add: isdigit_def lex_number_def lex_digits_def lex_fraction_def lex_exponent_def)

lemma tokens_open: "tokens ''(2+3'' = [TLParen, TNumber ''2'', TPlus, TNumber ''3'', TEnd]"
  by (simp add: isdigit_def lex_number_def lex_digits_def lex_fraction_def lex_exponent_def)

lemma tokens_x: "tokens ''2*x'' = [TNumber ''2'', TTimes, TUnexpected (CHR ''x''), TEnd]"
  by (simp add: isdigit_def lex_number_def lex_digits_def lex_fraction_def lex_exponent_def)

text \<open>
  Instances: \<open>2+\<close> is not well formed, \<open>2*x\<close> holds an unexpected token,
  \<open>(2+3\<close> leaves a parenthesis open; the result of each is the sentinel.
\<close>

theorem eval_malformed_is_nan_witness:
  "\<not> well_formed (tokens ''2+'') \<and> eval example_arithmetic ''2+'' = Some NaN \<and>
   \<not> double_eq (NaN :: number double) NaN \<and>
   TUnexpected (CHR ''x'') \<in> set (tokens ''2*x'') \<and> eval example_arithmetic ''2*x'' = Some NaN \<and>
   \<not> balanced (tokens ''(2+3'') 0 \<and> eval example_arithmetic ''(2+3'' = Some NaN"
proof -
  have "\<not> well_formed (tokens ''2+'')"
  proof
    assume "well_formed (tokens ''2+'')"
    then obtain e where e: "derives Sum e" "[TNumber ''2'', TPlus, TEnd] = e @ [TEnd]"
      unfolding well_formed_def tokens_2_plus by blast
    from e(2) have "e = [TNumber ''2'', TPlus]" by simp
    with derives_last [OF e(1)] show False by simp
  qed
  moreover have "TUnexpected (CHR ''x'') \<in> set (tokens ''2*x'')"
    unfolding tokens_x by simp
  moreover have "\<not> balanced (tokens ''(2+3'') 0"
    unfolding tokens_open by simp
  ultimately show ?thesis
    using eval_malformed_is_nan [of example_arithmetic "''2+''"]
      eval_malformed_is_nan [of example_arithmetic "''2*x''" "CHR ''x''"]
      eval_malformed_is_nan [of example_arithmetic "''(2+3''"]
    by simp
qed

text \<open>The examples of section 8 of the specification, and one expression of each kind of error.\<close>

lemma eval_examples:
  "eval example_arithmetic ''2+3*4'' = Some (Num (Finite 14))"
  "eval example_arithmetic ''(2+3)*4'' = Some (Num (Finite 20))"
  "eval example_arithmetic ''2^3^2'' = Some (Num (Finite 512))"
  "eval example_arithmetic ''1/0'' = Some (Num PosInf)"
  "eval example_arithmetic ''2+'' = Some NaN"
  "eval example_arithmetic ''2*x'' = Some NaN"
  "eval example_arithmetic ''(2+3'' = Some NaN"
  "eval example_arithmetic ''2+3)'' = Some NaN"
  by code_simp+

end
